theory Spec2Isabelle
  imports Main
begin

section \<open>The 2048 grid engine of 2048_GAME.py\<close>

text \<open>
  The class \<open>Game2048\<close> keeps a 4x4 numpy array \<open>game_grid\<close>, a \<open>score\<close> and a flag
  \<open>running\<close>. The array is a list of rows here, a cell is an \<open>int\<close>; the array is
  created by \<open>np.zeros((4, 4), dtype=int)\<close> and every operation of the class keeps that
  shape, which \<open>is_grid4\<close> states. Cell values and the score are modelled as unbounded
  integers, where numpy computes in 64 bits: in every state of a game the cells are below
  \<open>2 ^ 18\<close> and the score is at most \<open>2 ^ 40\<close> (\<open>values_in_range\<close> below), and every
  call of \<open>move\<close> keeps these bounds (\<open>move_in_range\<close>), so no product and no sum of the
  program leaves the 64-bit range. The widgets, the colours and the timer are not modelled.
\<close>

type_synonym grid = "int list list"

definition is_grid4 :: "grid \<Rightarrow> bool" where
  "is_grid4 g \<longleftrightarrow> length g = 4 \<and> (\<forall>r \<in> set g. length r = 4)"

record game =
  game_grid :: grid
  score :: int
  running :: bool

subsection \<open>\<open>move\<close>: one pass of compacting and merging to the left\<close>

text \<open>
  The inner loop of \<open>move\<close>, for one index \<open>j\<close>:
  \<^verbatim>\<open>
  if row[j] == row[j + 1]:
      row[j] *= 2
      self.score += row[j]
      row[j + 1] = 0
  \<close>
\<close>

definition combine_at :: "nat \<Rightarrow> int list \<times> int \<Rightarrow> int list \<times> int" where
  "combine_at j = (\<lambda>(row, sc).
     if row ! j = row ! (j + 1)
     then (let v = row ! j * 2 in (row[j := v, j + 1 := 0], sc + v))
     else (row, sc))"

text \<open>\<^verbatim>\<open>for j in range(len(row) - 1)\<close>; the range is empty for an empty row.\<close>

definition combine_tiles :: "int list \<Rightarrow> int \<Rightarrow> int list \<times> int" where
  "combine_tiles row sc = fold combine_at [0..<length row - 1] (row, sc)"

text \<open>\<^verbatim>\<open>matrix[i][matrix[i] != 0]\<close> and \<^verbatim>\<open>row[row != 0]\<close>: a copy without the zeros.\<close>

definition remove_zeros :: "int list \<Rightarrow> int list" where
  "remove_zeros xs = filter (\<lambda>x. x \<noteq> 0) xs"

text \<open>
  The body of the loop over \<open>i\<close>: row \<open>i\<close> of \<open>matrix\<close> is compacted, merged, compacted
  again and written over the first cells of row \<open>i\<close> of \<open>new_matrix\<close>
  (\<^verbatim>\<open>new_matrix[i, :len(row)] = row\<close>).
\<close>

definition move_row :: "grid \<Rightarrow> nat \<Rightarrow> grid \<times> int \<Rightarrow> grid \<times> int" where
  "move_row matrix i = (\<lambda>(new_matrix, sc).
     let (row, sc') = combine_tiles (remove_zeros (matrix ! i)) sc;
         row' = remove_zeros row
     in (new_matrix[i := row' @ drop (length row') (new_matrix ! i)], sc'))"

text \<open>\<^verbatim>\<open>np.zeros_like(matrix)\<close>\<close>

definition zeros_like :: "grid \<Rightarrow> grid" where
  "zeros_like matrix = map (\<lambda>r. replicate (length r) 0) matrix"

text \<open>\<open>move\<close> takes the matrix and the score and returns the new matrix and the score.\<close>

definition move :: "grid \<Rightarrow> int \<Rightarrow> grid \<times> int" where
  "move matrix sc = fold (move_row matrix) [0..<4] (zeros_like matrix, sc)"

subsection \<open>Rotations and flips (numpy)\<close>

text \<open>
  \<open>np.fliplr\<close> reverses every row, \<open>np.flipud\<close> the order of the rows. \<open>np.rot90(m, k)\<close>
  turns the array counterclockwise \<open>k\<close> times: numpy computes it as the transpose of the
  left-right flip for \<open>k = 1\<close>, both flips for \<open>k = 2\<close> and the left-right flip of the
  transpose for \<open>k = 3\<close>.
\<close>

definition fliplr :: "grid \<Rightarrow> grid" where
  "fliplr m = map rev m"

definition flipud :: "grid \<Rightarrow> grid" where
  "flipud m = rev m"

definition rot90 :: "grid \<Rightarrow> nat \<Rightarrow> grid" where
  "rot90 m k =
     (if k mod 4 = 0 then m
      else if k mod 4 = 2 then flipud (fliplr m)
      else if k mod 4 = 1 then transpose (fliplr m)
      else fliplr (transpose m))"

definition rotate_grid :: "grid \<Rightarrow> nat \<Rightarrow> grid" where
  "rotate_grid g k = rot90 g k"

subsection \<open>Spawning a tile\<close>

text \<open>
  \<open>add_random_tile\<close> draws twice from \<open>random.choice\<close>: a position among the empty cells
  and a value among \<open>[2, 4]\<close>. The two draws are a parameter here: \<open>pick\<close> is the index
  that \<open>random.choice\<close> takes in \<open>empty_cells\<close>, \<open>tile\<close> the value it takes in \<open>[2, 4]\<close>.
\<close>

record draw =
  pick :: nat
  tile :: int

definition empty_cells :: "grid \<Rightarrow> (nat \<times> nat) list" where
  "empty_cells g = [(i, j). i \<leftarrow> [0..<4], j \<leftarrow> [0..<4], g ! i ! j = 0]"

definition add_random_tile :: "draw \<Rightarrow> grid \<Rightarrow> grid" where
  "add_random_tile d g =
     (if empty_cells g \<noteq> []
      then (let (i, j) = empty_cells g ! pick d in g[i := (g ! i)[j := tile d]])
      else g)"

text \<open>What \<open>random.choice\<close> can return: an index into the list, and 2 or 4.\<close>

definition draw_ok :: "draw \<Rightarrow> grid \<Rightarrow> bool" where
  "draw_ok d g \<longleftrightarrow> (tile d = 2 \<or> tile d = 4) \<and>
     (empty_cells g = [] \<or> pick d < length (empty_cells g))"

subsection \<open>The end of the game\<close>

text \<open>The nested \<open>for\<close> statements of \<open>can_move\<close> return True at the first cell that passes the test.\<close>

definition can_move :: "grid \<Rightarrow> bool" where
  "can_move g \<longleftrightarrow>
     (\<exists>row \<in> set [0..<4]. \<exists>col \<in> set [0..<4].
        g ! row ! col = 0
        \<or> (col < 3 \<and> g ! row ! col = g ! row ! (col + 1))
        \<or> (row < 3 \<and> g ! row ! col = g ! (row + 1) ! col))"

definition game_over :: "game \<Rightarrow> game" where
  "game_over st = st\<lparr>running := False\<rparr>"

definition after_move :: "draw \<Rightarrow> game \<Rightarrow> game" where
  "after_move d st =
     (let st' = st\<lparr>game_grid := add_random_tile d (game_grid st)\<rparr>
      in if \<not> can_move (game_grid st') then game_over st' else st')"

subsection \<open>The four key handlers\<close>

text \<open>
  The body of the loop \<^verbatim>\<open>for _ in range(3)\<close>, which the four handlers share word for
  word: the state and the flag \<open>moved\<close> go in and come out.
\<close>

definition move_pass :: "game \<times> bool \<Rightarrow> game \<times> bool" where
  "move_pass = (\<lambda>(st, moved).
     let (new_grid, sc) = move (game_grid st) (score st)
     in (st\<lparr>game_grid := new_grid, score := sc\<rparr>, moved \<or> new_grid \<noteq> game_grid st))"

text \<open>
  Each handler up to its last statement \<^verbatim>\<open>if moved: self.after_move()\<close>: the state
  and the flag \<open>moved\<close> at that point.
\<close>

definition shift_left :: "game \<Rightarrow> game \<times> bool" where
  "shift_left st = (move_pass ^^ 3) (st, False)"

definition shift_up :: "game \<Rightarrow> game \<times> bool" where
  "shift_up st =
     (let st0 = st\<lparr>game_grid := rotate_grid (game_grid st) 1\<rparr>;
          (st1, moved) = (move_pass ^^ 3) (st0, False)
      in (st1\<lparr>game_grid := rotate_grid (game_grid st1) 3\<rparr>, moved))"

definition shift_down :: "game \<Rightarrow> game \<times> bool" where
  "shift_down st =
     (let st0 = st\<lparr>game_grid := rotate_grid (game_grid st) 3\<rparr>;
          (st1, moved) = (move_pass ^^ 3) (st0, False)
      in (st1\<lparr>game_grid := rotate_grid (game_grid st1) 1\<rparr>, moved))"

definition shift_right :: "game \<Rightarrow> game \<times> bool" where
  "shift_right st =
     (let st0 = st\<lparr>game_grid := fliplr (game_grid st)\<rparr>;
          (st1, moved) = (move_pass ^^ 3) (st0, False)
      in (st1\<lparr>game_grid := fliplr (game_grid st1)\<rparr>, moved))"

definition finish :: "draw \<Rightarrow> game \<times> bool \<Rightarrow> game" where
  "finish d = (\<lambda>(st, moved). if moved then after_move d st else st)"

definition move_up :: "draw \<Rightarrow> game \<Rightarrow> game" where
  "move_up d st = finish d (shift_up st)"

definition move_down :: "draw \<Rightarrow> game \<Rightarrow> game" where
  "move_down d st = finish d (shift_down st)"

definition move_left :: "draw \<Rightarrow> game \<Rightarrow> game" where
  "move_left d st = finish d (shift_left st)"

definition move_right :: "draw \<Rightarrow> game \<Rightarrow> game" where
  "move_right d st = finish d (shift_right st)"

text \<open>
  \<open>__init__\<close>: the grid of zeros, two spawned tiles, then score 0 and \<open>running = True\<close>.
\<close>

definition init :: "draw \<Rightarrow> draw \<Rightarrow> game" where
  "init d1 d2 =
     \<lparr>game_grid = add_random_tile d2 (add_random_tile d1 (replicate 4 (replicate 4 0))),
      score = 0, running = True\<rparr>"


subsection \<open>The key bindings\<close>

text \<open>
  \<open>__init__\<close> binds the four arrow keys to the four handlers. \<open>handler\<close> is that table;
  \<open>shift\<close> is the same table for the part of each handler before \<open>after_move\<close>.
\<close>

datatype direction = Up | Down | Left | Right

fun shift :: "direction \<Rightarrow> game \<Rightarrow> game \<times> bool" where
  "shift Up = shift_up"
| "shift Down = shift_down"
| "shift Left = shift_left"
| "shift Right = shift_right"

fun handler :: "direction \<Rightarrow> draw \<Rightarrow> game \<Rightarrow> game" where
  "handler Up = move_up"
| "handler Down = move_down"
| "handler Left = move_left"
| "handler Right = move_right"

text \<open>
  The states of a game: \<open>__init__\<close> with two draws that \<open>random.choice\<close> can return, then
  any key while the keys are bound (\<open>game_over\<close> unbinds them and clears \<open>running\<close>).
\<close>

definition zero_grid :: grid where
  "zero_grid = replicate 4 (replicate 4 0)"

inductive reachable :: "game \<Rightarrow> bool" where
  start: "draw_ok d1 zero_grid \<Longrightarrow> draw_ok d2 (add_random_tile d1 zero_grid) \<Longrightarrow>
     reachable (init d1 d2)"
| key: "reachable st \<Longrightarrow> running st \<Longrightarrow> draw_ok d (game_grid (fst (shift dir st))) \<Longrightarrow>
     reachable (handler dir d st)"

section \<open>Functions of the specification and of the proofs\<close>

subsection \<open>The inner loop as a recursion\<close>

text \<open>
  \<open>scan\<close> walks the row as the loop over \<open>j\<close> does: after a merge the zero it wrote is
  the next left cell.
\<close>

fun scan :: "int list \<Rightarrow> int \<Rightarrow> int list \<times> int" where
  "scan (a # b # rest) sc =
     (if a = b
      then (case scan (0 # rest) (sc + a * 2) of (r, sc') \<Rightarrow> (a * 2 # r, sc'))
      else (case scan (b # rest) sc of (r, sc') \<Rightarrow> (a # r, sc')))"
| "scan xs sc = (xs, sc)"

subsection \<open>The compact-left primitive in the words of the specification\<close>

text \<open>
  On the values that remain once the zeros are removed: whenever two adjacent values are
  equal they merge into the left cell, the right cell becomes zero, the doubled value is
  added to the score, and the scan goes on behind the pair, so a merged cell does not merge
  again. \<open>merge_pairs\<close> returns the cells and the sum of the doubled values;
  \<open>compact_left\<close> removes the zeros before and after and pads the row with zeros.
\<close>

fun merge_pairs :: "int list \<Rightarrow> int list \<times> int" where
  "merge_pairs (a # b # rest) =
     (if a = b
      then (case merge_pairs rest of (r, d) \<Rightarrow> (a * 2 # 0 # r, a * 2 + d))
      else (case merge_pairs (b # rest) of (r, d) \<Rightarrow> (a # r, d)))"
| "merge_pairs xs = (xs, 0)"

definition compact_left :: "int list \<Rightarrow> int list \<times> int" where
  "compact_left r =
     (let kept = filter (\<lambda>x. x \<noteq> 0) r;
          (m, d) = merge_pairs kept;
          t = filter (\<lambda>x. x \<noteq> 0) m
      in (t @ replicate (length r - length t) 0, d))"

text \<open>
  One pass of the primitive over the rows of a grid and the score it adds, and the three
  passes of one key with the score they add.
\<close>

definition compact_grid :: "grid \<Rightarrow> grid" where
  "compact_grid g = map (\<lambda>r. fst (compact_left r)) g"

definition compact_gain :: "grid \<Rightarrow> int" where
  "compact_gain g = (\<Sum>r\<leftarrow>g. snd (compact_left r))"

definition compact3 :: "grid \<Rightarrow> grid" where
  "compact3 g = compact_grid (compact_grid (compact_grid g))"

definition compact_gain3 :: "grid \<Rightarrow> int" where
  "compact_gain3 g = compact_gain g + compact_gain (compact_grid g)
     + compact_gain (compact_grid (compact_grid g))"

subsection \<open>Rows after a pass, and the tiles a pass creates\<close>

text \<open>
  \<open>merged\<close> is the row of tiles after the merges of one pass, \<open>merged_tiles\<close> the list
  of the tiles that the merges of the pass create, \<open>gain\<close> their sum. \<open>slide\<close> is one pass
  on a row of the grid, \<open>slide3\<close> three passes.
\<close>

fun merged :: "int list \<Rightarrow> int list" where
  "merged (a # b # rest) = (if a = b then a * 2 # merged rest else a # merged (b # rest))"
| "merged xs = xs"

fun merged_tiles :: "int list \<Rightarrow> int list" where
  "merged_tiles (a # b # rest) =
     (if a = b then a * 2 # merged_tiles rest else merged_tiles (b # rest))"
| "merged_tiles xs = []"

definition gain :: "int list \<Rightarrow> int" where
  "gain xs = sum_list (merged_tiles xs)"

definition slide :: "int list \<Rightarrow> int list" where
  "slide r = (let t = merged (remove_zeros r) in t @ replicate (length r - length t) 0)"

definition slide3 :: "int list \<Rightarrow> int list" where
  "slide3 r = slide (slide (slide r))"

definition pad :: "nat \<Rightarrow> int list \<Rightarrow> int list" where
  "pad n t = t @ replicate (n - length t) 0"

text \<open>
  A row is compacted when its tiles stand before its zeros. The potential of a row falls
  with every pass that changes the row.
\<close>

definition compacted :: "int list \<Rightarrow> bool" where
  "compacted r \<longleftrightarrow> r = pad (length r) (remove_zeros r)"

definition potential :: "int list \<Rightarrow> nat" where
  "potential r = 2 * length (remove_zeros r) + (if compacted r then 0 else 1)"

text \<open>The tiles that one pass over a grid creates, and the score of one and of three passes.\<close>

definition pass_tiles :: "grid \<Rightarrow> int list" where
  "pass_tiles g = concat (map (\<lambda>r. merged_tiles (remove_zeros r)) g)"

definition pass_gain :: "grid \<Rightarrow> int" where
  "pass_gain g = sum_list (map (\<lambda>r. gain (remove_zeros r)) g)"

definition gain3 :: "grid \<Rightarrow> int" where
  "gain3 g = pass_gain g + pass_gain (map slide g) + pass_gain (map slide (map slide g))"

subsection \<open>The transform of each direction\<close>

text \<open>
  Up: a quarter turn, back by three; Down: three quarter turns, back by one; Right: the
  left-right flip, twice; Left: nothing.
\<close>

fun orient :: "direction \<Rightarrow> grid \<Rightarrow> grid" where
  "orient Up g = rot90 g 1"
| "orient Down g = rot90 g 3"
| "orient Left g = g"
| "orient Right g = fliplr g"

fun restore :: "direction \<Rightarrow> grid \<Rightarrow> grid" where
  "restore Up g = rot90 g 3"
| "restore Down g = rot90 g 1"
| "restore Left g = g"
| "restore Right g = fliplr g"

subsection \<open>The invariant of the grid\<close>

text \<open>
  A cell is empty or a power of two, at least 2. The exponent is searched below the value,
  so the predicate can be evaluated.
\<close>

definition tile_ok :: "int \<Rightarrow> bool" where
  "tile_ok c \<longleftrightarrow> c = 0 \<or> (\<exists>k \<in> {1..nat c}. c = 2 ^ k)"

definition cells_ok :: "grid \<Rightarrow> bool" where
  "cells_ok g \<longleftrightarrow> (\<forall>c \<in> set (concat g). tile_ok c)"

definition cells_nonneg :: "grid \<Rightarrow> bool" where
  "cells_nonneg g \<longleftrightarrow> (\<forall>c \<in> set (concat g). 0 \<le> c)"

definition occupied :: "grid \<Rightarrow> nat" where
  "occupied g = length (filter (\<lambda>c. c \<noteq> 0) (concat g))"

definition grid_inv :: "grid \<Rightarrow> bool" where
  "grid_inv g \<longleftrightarrow> is_grid4 g \<and> cells_ok g \<and> occupied g \<le> 16"

subsection \<open>The range of the values\<close>

text \<open>
  \<open>at_least t xs\<close> counts the cells of value \<open>t\<close> or more. \<open>cap\<close> says that, for every
  exponent \<open>e\<close> up to 18, at most \<open>18 - e\<close> cells hold \<open>2 ^ e\<close> or more: two tiles of
  \<open>2 ^ e\<close> must stand on the grid together before a tile of \<open>2 ^ (e + 1)\<close> can appear.
  \<open>cell_sum f\<close> adds \<open>f\<close> over the cells; the sum of the squares of the cells bounds the
  score.
\<close>

definition at_least :: "int \<Rightarrow> int list \<Rightarrow> nat" where
  "at_least t xs = length (filter (\<lambda>c. t \<le> c) xs)"

definition cap :: "grid \<Rightarrow> bool" where
  "cap g \<longleftrightarrow> (\<forall>e \<in> {0..18}. at_least (2 ^ e) (concat g) + e \<le> 18)"

definition cell_sum :: "(int \<Rightarrow> int) \<Rightarrow> grid \<Rightarrow> int" where
  "cell_sum f g = sum_list (map f (concat g))"

definition sq :: "int \<Rightarrow> int" where
  "sq c = c * c"

subsection \<open>Concrete grids and states\<close>

definition checker :: grid where
  "checker = [[2, 4, 2, 4], [4, 2, 4, 2], [2, 4, 2, 4], [4, 2, 4, 2]]"

definition demo :: game where
  "demo = \<lparr>game_grid = [[2, 2, 2, 2], [0, 2, 0, 2], [4, 4, 2, 2], [2, 0, 0, 2]],
            score = 0, running = True\<rparr>"

definition settled :: game where
  "settled = \<lparr>game_grid = [[2, 0, 0, 0], [4, 0, 0, 0], [0, 0, 0, 0], [0, 0, 0, 0]],
               score = 7, running = True\<rparr>"


section \<open>Proofs\<close>

subsection \<open>The inner loop is the recursion\<close>

lemma combine_at_append:
  "combine_at (length pre) (pre @ a # b # rest, sc) =
     (if a = b then ((pre @ [a * 2]) @ 0 # rest, sc + a * 2) else ((pre @ [a]) @ b # rest, sc))"
  by (simp add: combine_at_def nth_append list_update_append Let_def)

lemma fold_combine_at:
  "fold combine_at [length pre ..< length pre + (length xs - 1)] (pre @ xs, sc) =
     (pre @ fst (scan xs sc), snd (scan xs sc))"
proof (induction xs sc arbitrary: pre rule: scan.induct)
  case (1 a b rest sc)
  have rng: "[length pre ..< length pre + (length (a # b # rest) - 1)] =
      length pre # [length (pre @ [x]) ..< length (pre @ [x]) + (length (y # rest) - 1)]" for x y :: int
  proof -
    have "[k..<k + Suc n] = k # [Suc k..<Suc k + n]" for k n :: nat
      by (subst upt_conv_Cons) simp_all
    from this [of "length pre" "length rest"] show ?thesis by simp
  qed
  show ?case
  proof (cases "a = b")
    case True
    have "fold combine_at [length pre ..< length pre + (length (a # b # rest) - 1)] (pre @ a # b # rest, sc)
        = fold combine_at [length (pre @ [a * 2]) ..< length (pre @ [a * 2]) + (length (0 # rest) - 1)]
            ((pre @ [a * 2]) @ 0 # rest, sc + a * 2)"
      unfolding rng [of "a * 2" 0] fold_simps combine_at_append using True by simp
    also have "\<dots> = ((pre @ [a * 2]) @ fst (scan (0 # rest) (sc + a * 2)), snd (scan (0 # rest) (sc + a * 2)))"
      using "1.IH"(1) [OF True] by blast
    finally show ?thesis using True by (simp add: split_beta)
  next
    case False
    have "fold combine_at [length pre ..< length pre + (length (a # b # rest) - 1)] (pre @ a # b # rest, sc)
        = fold combine_at [length (pre @ [a]) ..< length (pre @ [a]) + (length (b # rest) - 1)]
            ((pre @ [a]) @ b # rest, sc)"
      unfolding rng [of a b] fold_simps combine_at_append using False by simp
    also have "\<dots> = ((pre @ [a]) @ fst (scan (b # rest) sc), snd (scan (b # rest) sc))"
      using "1.IH"(2) [OF False] by blast
    finally show ?thesis using False by (simp add: split_beta)
  qed
qed simp_all

lemma combine_tiles_scan: "combine_tiles row sc = scan row sc"
  using fold_combine_at [of "[]" row sc] by (simp add: combine_tiles_def)

subsection \<open>One pass on a row and on the grid\<close>

lemma gain_simps [simp]:
  "gain (a # b # rest) = (if a = b then a * 2 + gain rest else gain (b # rest))"
  "gain [] = 0" "gain [a] = 0"
  by (simp_all add: gain_def)

lemma scan_zero_head:
  "0 \<notin> set rest \<Longrightarrow> scan (0 # rest) sc = (0 # fst (scan rest sc), snd (scan rest sc))"
  by (cases rest) (auto simp: split_beta)

lemma scan_merged:
  "0 \<notin> set xs \<Longrightarrow> remove_zeros (fst (scan xs sc)) = merged xs \<and> snd (scan xs sc) = sc + gain xs"
proof (induction xs arbitrary: sc rule: merged.induct)
  case (1 a b rest)
  then show ?case
    by (auto simp: scan_zero_head split_beta remove_zeros_def)
qed (simp_all add: remove_zeros_def)

lemma merged_nonzero: "0 \<notin> set xs \<Longrightarrow> 0 \<notin> set (merged xs)"
  by (induction xs rule: merged.induct) auto

lemma length_merged: "length (merged xs) \<le> length xs"
  by (induction xs rule: merged.induct) auto

lemma remove_zeros_nonzero [simp]: "0 \<notin> set (remove_zeros r)"
  by (simp add: remove_zeros_def)

lemma length_remove_zeros: "length (remove_zeros r) \<le> length r"
  by (simp add: remove_zeros_def)

lemma length_slide [simp]: "length (slide r) = length r"
  using length_merged [of "remove_zeros r"] length_remove_zeros [of r]
  by (simp add: slide_def Let_def)

lemma move_row_conv:
  assumes "i < length nm" and "nm ! i = replicate (length (matrix ! i)) 0"
  shows "move_row matrix i (nm, sc) =
    (nm[i := slide (matrix ! i)], sc + gain (remove_zeros (matrix ! i)))"
proof -
  let ?t = "remove_zeros (matrix ! i)"
  have s: "remove_zeros (fst (scan ?t sc)) = merged ?t" "snd (scan ?t sc) = sc + gain ?t"
    using scan_merged [of ?t sc] by simp_all
  show ?thesis
    using assms s by (simp add: move_row_def combine_tiles_scan split_beta Let_def slide_def)
qed

lemma grid4_rows:
  assumes "is_grid4 g"
  obtains r0 r1 r2 r3 where "g = [r0, r1, r2, r3]"
    "length r0 = 4" "length r1 = 4" "length r2 = 4" "length r3 = 4"
proof -
  from assms have "length g = 4" by (simp add: is_grid4_def)
  then obtain r0 r1 r2 r3 where g: "g = [r0, r1, r2, r3]"
    by (auto simp: numeral_eq_Suc length_Suc_conv)
  with assms that show thesis by (simp add: is_grid4_def)
qed

lemma upt4: "[0..<4] = [0, 1, 2, 3]"
  by (simp add: numeral_eq_Suc upt_rec)

subsection \<open>Fixed points of a pass\<close>

lemma slide_pad: "slide r = pad (length r) (merged (remove_zeros r))"
  by (simp add: slide_def pad_def Let_def)

lemma merged_count: "length (merged xs) + length (merged_tiles xs) = length xs"
  by (induction xs rule: merged.induct) auto

lemma merged_tiles_Nil: "merged_tiles xs = [] \<Longrightarrow> merged xs = xs"
  by (induction xs rule: merged.induct) (auto split: if_splits)

lemma merged_same_length: "length (merged xs) = length xs \<Longrightarrow> merged_tiles xs = []"
  using merged_count [of xs] by simp

lemma merged_fix_tiles: "merged xs = xs \<Longrightarrow> merged_tiles xs = []"
  by (simp add: merged_same_length)

lemma remove_zeros_pad: "0 \<notin> set t \<Longrightarrow> remove_zeros (pad n t) = t"
  by (auto simp: remove_zeros_def pad_def filter_id_conv)

lemma remove_zeros_slide: "remove_zeros (slide r) = merged (remove_zeros r)"
  by (simp add: slide_pad remove_zeros_pad merged_nonzero)

lemma compacted_slide: "compacted (slide r)"
  by (simp add: compacted_def remove_zeros_slide slide_pad [symmetric])

lemma slide_fix_tiles: "slide r = r \<Longrightarrow> merged_tiles (remove_zeros r) = []"
proof -
  assume "slide r = r"
  then have "remove_zeros (slide r) = remove_zeros r" by simp
  then show ?thesis by (simp add: remove_zeros_slide merged_fix_tiles)
qed

lemma slide_fix_gain: "slide r = r \<Longrightarrow> gain (remove_zeros r) = 0"
  by (simp add: gain_def slide_fix_tiles)

lemma slide_fixI: "compacted r \<Longrightarrow> merged_tiles (remove_zeros r) = [] \<Longrightarrow> slide r = r"
  unfolding compacted_def by (simp add: slide_pad merged_tiles_Nil)

lemma potential_slide_le: "potential (slide r) \<le> potential r"
  using length_merged [of "remove_zeros r"]
  by (simp add: potential_def compacted_slide remove_zeros_slide)

lemma potential_slide_less:
  assumes "slide r \<noteq> r"
  shows "potential (slide r) < potential r"
proof (cases "merged_tiles (remove_zeros r) = []")
  case True
  with assms have "\<not> compacted r" using slide_fixI by blast
  then show ?thesis
    using True by (simp add: potential_def compacted_slide remove_zeros_slide merged_tiles_Nil)
next
  case False
  then have "length (merged (remove_zeros r)) < length (remove_zeros r)"
    using merged_count [of "remove_zeros r"] by (cases "merged_tiles (remove_zeros r)") auto
  then show ?thesis
    by (simp add: potential_def compacted_slide remove_zeros_slide)
qed

lemma slide3_fix: "slide3 r = r \<longleftrightarrow> slide r = r"
proof
  assume eq: "slide3 r = r"
  show "slide r = r"
  proof (rule ccontr)
    assume "slide r \<noteq> r"
    then have "potential (slide r) < potential r" by (rule potential_slide_less)
    moreover have "potential (slide3 r) \<le> potential (slide r)"
      unfolding slide3_def
      using potential_slide_le [of "slide (slide r)"] potential_slide_le [of "slide r"]
      by linarith
    ultimately show False using eq by simp
  qed
next
  assume "slide r = r"
  then show "slide3 r = r" by (simp add: slide3_def)
qed

lemma merged_short: "length xs \<le> 1 \<Longrightarrow> merged xs = xs"
  by (cases xs rule: merged.cases) auto

lemma merged_settles:
  "length xs \<le> Suc n \<Longrightarrow> merged ((merged ^^ n) xs) = (merged ^^ n) xs"
proof (induction n arbitrary: xs)
  case 0
  then show ?case by (simp add: merged_short)
next
  case (Suc n)
  show ?case
  proof (cases "length (merged xs) = length xs")
    case True
    then have fx: "merged xs = xs" by (simp add: merged_same_length merged_tiles_Nil)
    then have "(merged ^^ k) xs = xs" for k by (induction k) simp_all
    with fx show ?thesis by simp
  next
    case False
    with length_merged [of xs] Suc.prems have "length (merged xs) \<le> Suc n" by simp
    from Suc.IH [OF this] show ?thesis by (simp add: funpow_swap1)
  qed
qed

lemma slide_funpow:
  "(slide ^^ Suc k) r = pad (length r) ((merged ^^ Suc k) (remove_zeros r))"
proof (induction k)
  case 0
  show ?case by (simp add: slide_pad)
next
  case (Suc k)
  have len: "length ((slide ^^ Suc k) r) = length r" for k
    by (induction k) simp_all
  have "(slide ^^ Suc (Suc k)) r = slide ((slide ^^ Suc k) r)" by simp
  also have "\<dots> = pad (length r) (merged (remove_zeros ((slide ^^ Suc k) r)))"
    by (simp only: slide_pad len)
  also have "remove_zeros ((slide ^^ Suc k) r) = (merged ^^ Suc k) (remove_zeros r)"
  proof -
    have nz: "0 \<notin> set ((merged ^^ j) (remove_zeros r))" for j
      by (induction j) (simp_all add: merged_nonzero)
    show ?thesis unfolding Suc.IH using nz [of "Suc k"] by (rule remove_zeros_pad)
  qed
  finally show ?case by simp
qed

lemma slide3_settled:
  assumes "length r \<le> 4"
  shows "slide (slide3 r) = slide3 r"
proof -
  have "length (remove_zeros r) \<le> Suc 3"
    using assms length_remove_zeros [of r] by simp
  from merged_settles [OF this]
  have "(merged ^^ Suc 3) (remove_zeros r) = (merged ^^ Suc 2) (remove_zeros r)"
    by (simp add: numeral_3_eq_3 numeral_2_eq_2)
  then have "(slide ^^ Suc 3) r = (slide ^^ Suc 2) r"
    by (simp only: slide_funpow)
  then show ?thesis by (simp add: slide3_def numeral_3_eq_3 numeral_2_eq_2)
qed

subsection \<open>Rotations, flips and three passes\<close>

lemma move_conv: "length g = 4 \<Longrightarrow> move g sc = (map slide g, sc + pass_gain g)"
proof -
  assume "length g = 4"
  then obtain r0 r1 r2 r3 where g: "g = [r0, r1, r2, r3]"
    by (auto simp: numeral_eq_Suc length_Suc_conv)
  show ?thesis
    unfolding g move_def upt4 zeros_like_def pass_gain_def
    by (simp add: move_row_conv add.assoc)
qed

lemma grid4_cells:
  assumes "is_grid4 g"
  obtains a0 a1 a2 a3 b0 b1 b2 b3 c0 c1 c2 c3 d0 d1 d2 d3 where
    "g = [[a0, a1, a2, a3], [b0, b1, b2, b3], [c0, c1, c2, c3], [d0, d1, d2, d3]]"
proof -
  have row: "\<exists>a b c d. r = [a, b, c, d]" if "length r = 4" for r :: "int list"
    using that by (auto simp: numeral_eq_Suc length_Suc_conv)
  from assms obtain r0 r1 r2 r3 where g: "g = [r0, r1, r2, r3]"
    and "length r0 = 4" "length r1 = 4" "length r2 = 4" "length r3 = 4"
    by (rule grid4_rows)
  then show thesis using row [of r0] row [of r1] row [of r2] row [of r3] that by blast
qed

lemma rot90_1: "rot90 g 1 = transpose (fliplr g)"
  by (simp add: rot90_def)

lemma rot90_3: "rot90 g 3 = fliplr (transpose g)"
  by (simp add: rot90_def)

lemma rot90_1_cells:
  "rot90 [[a0, a1, a2, a3], [b0, b1, b2, b3], [c0, c1, c2, c3], [d0, d1, d2, d3]] 1 =
     [[a3, b3, c3, d3], [a2, b2, c2, d2], [a1, b1, c1, d1], [a0, b0, c0, d0]]"
  unfolding rot90_1 fliplr_def by simp

lemma rot90_3_cells:
  "rot90 [[a0, a1, a2, a3], [b0, b1, b2, b3], [c0, c1, c2, c3], [d0, d1, d2, d3]] 3 =
     [[d0, c0, b0, a0], [d1, c1, b1, a1], [d2, c2, b2, a2], [d3, c3, b3, a3]]"
  unfolding rot90_3 fliplr_def by simp

lemma rot90_3_1: "is_grid4 g \<Longrightarrow> rot90 (rot90 g 1) 3 = g"
  by (erule grid4_cells) (simp only: rot90_1_cells rot90_3_cells)

lemma rot90_1_3: "is_grid4 g \<Longrightarrow> rot90 (rot90 g 3) 1 = g"
  by (erule grid4_cells) (simp only: rot90_1_cells rot90_3_cells)

lemma fliplr_fliplr: "fliplr (fliplr g) = g"
  by (simp add: fliplr_def map_idI)

lemma is_grid4_rot90_1: "is_grid4 g \<Longrightarrow> is_grid4 (rot90 g 1)"
  by (erule grid4_cells) (simp only: rot90_1_cells, simp add: is_grid4_def)

lemma is_grid4_rot90_3: "is_grid4 g \<Longrightarrow> is_grid4 (rot90 g 3)"
  by (erule grid4_cells) (simp only: rot90_3_cells, simp add: is_grid4_def)

lemma is_grid4_fliplr: "is_grid4 g \<Longrightarrow> is_grid4 (fliplr g)"
  by (simp add: is_grid4_def fliplr_def)

lemma is_grid4_map_slide: "is_grid4 g \<Longrightarrow> is_grid4 (map slide g)"
  by (simp add: is_grid4_def)

lemma length_slide3 [simp]: "length (slide3 r) = length r"
  by (simp add: slide3_def)

lemma is_grid4_map_slide3: "is_grid4 g \<Longrightarrow> is_grid4 (map slide3 g)"
  by (simp add: is_grid4_def)

lemma map_fix_iff: "map f xs = xs \<longleftrightarrow> (\<forall>x \<in> set xs. f x = x)"
  using map_eq_conv [of f xs id] by simp

lemma map_slide3_fix: "map slide3 g = g \<longleftrightarrow> map slide g = g"
  by (simp add: map_fix_iff slide3_fix)

lemma map_slide3: "map slide (map slide (map slide g)) = map slide3 g"
  by (simp add: slide3_def)

lemma passes3:
  assumes "length (game_grid st) = 4"
  shows "(move_pass ^^ 3) (st, False) =
    (st\<lparr>game_grid := map slide3 (game_grid st), score := score st + gain3 (game_grid st)\<rparr>,
     map slide3 (game_grid st) \<noteq> game_grid st)"
proof -
  let ?g = "game_grid st"
  have flag: "(map slide ?g \<noteq> ?g \<or> map slide (map slide ?g) \<noteq> map slide ?g
      \<or> map slide3 ?g \<noteq> map slide (map slide ?g)) \<longleftrightarrow> map slide3 ?g \<noteq> ?g"
  proof (cases "map slide ?g = ?g")
    case True
    show ?thesis unfolding True by simp
  next
    case False
    then have "map slide3 ?g \<noteq> ?g" by (simp only: map_slide3_fix not_False_eq_True)
    with False show ?thesis by blast
  qed
  have "(move_pass ^^ 3) (st, False) =
    (st\<lparr>game_grid := map slide3 ?g, score := score st + gain3 ?g\<rparr>,
     map slide ?g \<noteq> ?g \<or> map slide (map slide ?g) \<noteq> map slide ?g
      \<or> map slide3 ?g \<noteq> map slide (map slide ?g))"
    using assms
    by (simp add: numeral_3_eq_3 move_pass_def move_conv gain3_def map_slide3 [symmetric]
        add.assoc del: map_map)
  with flag show ?thesis by simp
qed

subsection \<open>The four directions\<close>

lemmas rot90_Suc0 =
  is_grid4_rot90_1 [unfolded One_nat_def] rot90_3_1 [unfolded One_nat_def]
  rot90_1_3 [unfolded One_nat_def]

lemma handler_finish: "handler dir d st = finish d (shift dir st)"
  by (cases dir) (simp_all add: move_up_def move_down_def move_left_def move_right_def)

lemma is_grid4_orient: "is_grid4 g \<Longrightarrow> is_grid4 (orient dir g)"
  by (cases dir) (simp_all add: rot90_Suc0 is_grid4_rot90_3 is_grid4_fliplr)

lemma is_grid4_restore: "is_grid4 g \<Longrightarrow> is_grid4 (restore dir g)"
  by (cases dir) (simp_all add: rot90_Suc0 is_grid4_rot90_3 is_grid4_fliplr)

lemma restore_orient: "is_grid4 g \<Longrightarrow> restore dir (orient dir g) = g"
  by (cases dir) (simp_all add: rot90_Suc0 fliplr_fliplr)

lemma orient_restore: "is_grid4 g \<Longrightarrow> orient dir (restore dir g) = g"
  by (cases dir) (simp_all add: rot90_Suc0 fliplr_fliplr)

lemma is_grid4_length: "is_grid4 g \<Longrightarrow> length g = 4"
  by (simp add: is_grid4_def)

lemma shift_via_left:
  "shift dir st =
     (let (st', moved) = shift_left (st\<lparr>game_grid := orient dir (game_grid st)\<rparr>)
      in (st'\<lparr>game_grid := restore dir (game_grid st')\<rparr>, moved))"
  by (cases dir)
    (simp_all add: shift_up_def shift_down_def shift_left_def shift_right_def rotate_grid_def
      Let_def split_beta)

lemma shift_left_conv:
  assumes "is_grid4 (game_grid st)"
  shows "shift_left st =
    (st\<lparr>game_grid := map slide3 (game_grid st), score := score st + gain3 (game_grid st)\<rparr>,
     map slide3 (game_grid st) \<noteq> game_grid st)"
  unfolding shift_left_def using assms by (simp add: passes3 is_grid4_length)

lemma shift_conv:
  assumes "is_grid4 (game_grid st)"
  shows "shift dir st =
    (st\<lparr>game_grid := restore dir (map slide3 (orient dir (game_grid st))),
        score := score st + gain3 (orient dir (game_grid st))\<rparr>,
     map slide3 (orient dir (game_grid st)) \<noteq> orient dir (game_grid st))"
proof -
  have "is_grid4 (game_grid (st\<lparr>game_grid := orient dir (game_grid st)\<rparr>))"
    using assms by (simp add: is_grid4_orient)
  from shift_left_conv [OF this] show ?thesis
    by (simp add: shift_via_left)
qed

lemma restore_eq_iff:
  assumes "is_grid4 g" and "is_grid4 x"
  shows "restore dir x = g \<longleftrightarrow> x = orient dir g"
  using assms restore_orient orient_restore by metis

lemma shift_moved_iff:
  assumes "is_grid4 (game_grid st)"
  shows "snd (shift dir st) \<longleftrightarrow> game_grid (fst (shift dir st)) \<noteq> game_grid st"
proof -
  let ?o = "orient dir (game_grid st)"
  have "is_grid4 (map slide3 ?o)"
    using assms by (simp add: is_grid4_orient is_grid4_map_slide3)
  from restore_eq_iff [OF assms this, of dir] show ?thesis
    by (simp add: shift_conv [OF assms])
qed

lemma slide3_idem: "length r \<le> 4 \<Longrightarrow> slide3 (slide3 r) = slide3 r"
  using slide3_settled [of r] by (simp add: slide3_fix)

lemma map_slide3_idem: "is_grid4 g \<Longrightarrow> map slide3 (map slide3 g) = map slide3 g"
  by (simp add: is_grid4_def slide3_idem)

lemma sum_list_all_zero: "\<forall>x \<in> set xs. f x = (0::int) \<Longrightarrow> sum_list (map f xs) = 0"
  by (induction xs) simp_all

lemma pass_gain_fix: "map slide g = g \<Longrightarrow> pass_gain g = 0"
proof -
  assume "map slide g = g"
  then have "\<forall>r \<in> set g. gain (remove_zeros r) = 0"
    by (simp add: map_fix_iff slide_fix_gain)
  then show ?thesis unfolding pass_gain_def by (rule sum_list_all_zero)
qed

lemma gain3_fix: "map slide g = g \<Longrightarrow> gain3 g = 0"
  unfolding gain3_def by (simp add: pass_gain_fix)

lemma shift_unmoved:
  assumes "is_grid4 (game_grid st)" and "\<not> snd (shift dir st)"
  shows "fst (shift dir st) = st"
proof -
  from assms have fx: "map slide3 (orient dir (game_grid st)) = orient dir (game_grid st)"
    by (simp add: shift_conv)
  then have "gain3 (orient dir (game_grid st)) = 0"
    by (simp add: map_slide3_fix gain3_fix)
  with fx assms(1) show ?thesis
    by (simp add: shift_conv restore_orient)
qed

lemma shift_twice:
  assumes "is_grid4 (game_grid st)"
  shows "shift dir (fst (shift dir st)) = (fst (shift dir st), False)"
proof -
  let ?st' = "fst (shift dir st)"
  let ?m = "map slide3 (orient dir (game_grid st))"
  have m4: "is_grid4 ?m" using assms by (simp add: is_grid4_orient is_grid4_map_slide3)
  have g': "game_grid ?st' = restore dir ?m" by (simp add: shift_conv [OF assms])
  then have g4: "is_grid4 (game_grid ?st')" using m4 by (simp add: is_grid4_restore)
  have o: "orient dir (game_grid ?st') = ?m" unfolding g' using m4 by (rule orient_restore)
  have fx: "map slide3 ?m = ?m"
    using assms by (intro map_slide3_idem is_grid4_orient)
  then have "\<not> snd (shift dir ?st')"
    by (simp add: shift_conv [OF g4] o)
  with shift_unmoved [OF g4] show ?thesis
    by (simp add: prod_eq_iff)
qed

subsection \<open>The compact-left primitive, spawning and the end of the game\<close>

lemma scan_merge_pairs:
  "0 \<notin> set xs \<Longrightarrow> scan xs sc = (fst (merge_pairs xs), sc + snd (merge_pairs xs))"
proof (induction xs arbitrary: sc rule: merge_pairs.induct)
  case (1 a b rest)
  then show ?case by (auto simp: scan_zero_head split_beta)
qed simp_all

lemma merge_pairs_merged:
  assumes "0 \<notin> set xs"
  shows "remove_zeros (fst (merge_pairs xs)) = merged xs" and "snd (merge_pairs xs) = gain xs"
  using scan_merged [OF assms, of 0] scan_merge_pairs [OF assms, of 0] by simp_all

lemma compact_left_conv: "compact_left r = (slide r, gain (remove_zeros r))"
proof -
  let ?t = "remove_zeros r"
  have m: "remove_zeros (fst (merge_pairs ?t)) = merged ?t" "snd (merge_pairs ?t) = gain ?t"
    by (simp_all add: merge_pairs_merged)
  have "compact_left r =
      (remove_zeros (fst (merge_pairs ?t))
         @ replicate (length r - length (remove_zeros (fst (merge_pairs ?t)))) 0,
       snd (merge_pairs ?t))"
    by (simp add: compact_left_def Let_def split_beta remove_zeros_def)
  then show ?thesis by (simp only: m slide_def Let_def)
qed

lemma move_compact_left:
  assumes "length g = 4"
  shows "move g sc = (map (\<lambda>r. fst (compact_left r)) g, sc + (\<Sum>r\<leftarrow>g. snd (compact_left r)))"
  using assms by (simp add: move_conv compact_left_conv pass_gain_def)

lemma set_empty_cells: "set (empty_cells g) = {(i, j). i < 4 \<and> j < 4 \<and> g ! i ! j = 0}"
  by (auto simp: empty_cells_def)

lemma empty_cells_Nil: "empty_cells g = [] \<longleftrightarrow> \<not> (\<exists>i<4. \<exists>j<4. g ! i ! j = 0)"
proof -
  have "empty_cells g = [] \<longleftrightarrow> set (empty_cells g) = {}" by simp
  also have "\<dots> \<longleftrightarrow> \<not> (\<exists>i<4. \<exists>j<4. g ! i ! j = 0)"
    by (simp only: set_empty_cells) auto
  finally show ?thesis .
qed

lemma count_update:
  "j < length xs \<Longrightarrow> xs ! j = 0 \<Longrightarrow> v \<noteq> 0 \<Longrightarrow>
   length (filter (\<lambda>c. c \<noteq> 0) (xs[j := v])) = Suc (length (filter (\<lambda>c. c \<noteq> (0::int)) xs))"
proof (induction xs arbitrary: j)
  case Nil
  then show ?case by simp
next
  case (Cons x xs)
  then show ?case by (cases j) auto
qed

lemma occupied_update:
  "i < length g \<Longrightarrow> j < length (g ! i) \<Longrightarrow> g ! i ! j = 0 \<Longrightarrow> v \<noteq> 0 \<Longrightarrow>
   occupied (g[i := (g ! i)[j := v]]) = Suc (occupied g)"
proof (induction g arbitrary: i)
  case Nil
  then show ?case by simp
next
  case (Cons r g)
  show ?case
  proof (cases i)
    case 0
    with Cons.prems show ?thesis by (simp add: occupied_def count_update)
  next
    case (Suc n)
    with Cons.prems Cons.IH [of n] show ?thesis by (simp add: occupied_def)
  qed
qed

lemma add_random_tile_cell:
  assumes "empty_cells g \<noteq> []" and "pick d < length (empty_cells g)"
  obtains i j where "i < 4" "j < 4" "g ! i ! j = 0" "empty_cells g ! pick d = (i, j)"
    "add_random_tile d g = g[i := (g ! i)[j := tile d]]"
proof -
  obtain i j where ij: "empty_cells g ! pick d = (i, j)" by (cases "empty_cells g ! pick d")
  with assms(2) have "(i, j) \<in> set (empty_cells g)" using nth_mem by fastforce
  then have "i < 4" "j < 4" "g ! i ! j = 0" by (simp_all add: set_empty_cells)
  moreover have "add_random_tile d g = g[i := (g ! i)[j := tile d]]"
    using assms(1) ij by (simp add: add_random_tile_def)
  ultimately show thesis using that ij by blast
qed

lemma add_random_tile_full: "empty_cells g = [] \<Longrightarrow> add_random_tile d g = g"
  by (simp add: add_random_tile_def)

lemma nth_update2:
  "(i', j') \<noteq> (i, j) \<Longrightarrow> g[i := (g ! i)[j := v]] ! i' ! j' = g ! i' ! j'"
  by (cases "i' = i"; cases "i < length g") (auto simp: nth_list_update list_update_beyond)

lemma is_grid4_update:
  assumes "is_grid4 g" and "length x = 4"
  shows "is_grid4 (g[i := x])"
proof -
  have "set (g[i := x]) \<subseteq> insert x (set g)" by (rule set_update_subset_insert)
  with assms show ?thesis unfolding is_grid4_def by auto
qed

lemma add_random_tile_spec:
  assumes "is_grid4 g" and "draw_ok d g" and "\<exists>i<4. \<exists>j<4. g ! i ! j = 0"
  shows "\<exists>i<4. \<exists>j<4. g ! i ! j = 0 \<and> (i, j) \<in> set (empty_cells g)
      \<and> (tile d = 2 \<or> tile d = 4)
      \<and> add_random_tile d g ! i ! j = tile d
      \<and> (\<forall>i' j'. (i', j') \<noteq> (i, j) \<longrightarrow> add_random_tile d g ! i' ! j' = g ! i' ! j')
      \<and> occupied (add_random_tile d g) = occupied g + 1
      \<and> is_grid4 (add_random_tile d g)"
proof -
  from assms(3) have ne: "empty_cells g \<noteq> []" by (simp add: empty_cells_Nil)
  with assms(2) have pk: "pick d < length (empty_cells g)" and tl: "tile d = 2 \<or> tile d = 4"
    by (simp_all add: draw_ok_def)
  from ne pk obtain i j where ij: "i < 4" "j < 4" "g ! i ! j = 0"
    "empty_cells g ! pick d = (i, j)"
    and upd: "add_random_tile d g = g[i := (g ! i)[j := tile d]]"
    by (rule add_random_tile_cell)
  from assms(1) ij have len: "i < length g" "j < length (g ! i)" "length (g ! i) = 4"
    by (simp_all add: is_grid4_def)
  have mem: "(i, j) \<in> set (empty_cells g)" using ij(1-3) by (simp add: set_empty_cells)
  have cell: "add_random_tile d g ! i ! j = tile d" using len by (simp add: upd)
  have others: "\<forall>i' j'. (i', j') \<noteq> (i, j) \<longrightarrow> add_random_tile d g ! i' ! j' = g ! i' ! j'"
    unfolding upd
  proof (intro allI impI)
    fix i' j' assume "(i', j') \<noteq> (i, j)"
    then show "g[i := (g ! i)[j := tile d]] ! i' ! j' = g ! i' ! j'" by (rule nth_update2)
  qed
  have nz: "tile d \<noteq> 0" using tl by auto
  have occ: "occupied (add_random_tile d g) = occupied g + 1"
    by (simp only: upd occupied_update [OF len(1) len(2) ij(3) nz] Suc_eq_plus1)
  have g4: "is_grid4 (add_random_tile d g)"
    unfolding upd using assms(1) len(3) by (intro is_grid4_update) simp_all
  show ?thesis
    apply (rule exI [of _ i], rule conjI [OF ij(1)])
    apply (rule exI [of _ j], rule conjI [OF ij(2)])
    apply (intro conjI ij(3) mem tl cell others occ g4)
    done
qed

lemma can_move_iff:
  "\<not> can_move g \<longleftrightarrow>
     (\<forall>i<4. \<forall>j<4. g ! i ! j \<noteq> 0)
     \<and> (\<forall>i<4. \<forall>j<3. g ! i ! j \<noteq> g ! i ! (j + 1))
     \<and> (\<forall>i<3. \<forall>j<4. g ! i ! j \<noteq> g ! (i + 1) ! j)"
proof -
  have "(3::nat) < 4" by simp
  then have lt: "j < 3 \<Longrightarrow> j < 4" for j :: nat by simp
  show ?thesis unfolding can_move_def using lt by auto
qed

lemma checker_over: "\<not> can_move checker"
  by code_simp

lemma checker_hole:
  assumes "i < 4" and "j < 4"
  shows "can_move (checker[i := (checker ! i)[j := 0]])"
proof -
  have "length checker = 4" "length (checker ! i) = 4"
    using assms(1) by (auto simp: checker_def numeral_eq_Suc less_Suc_eq)
  then have "checker[i := (checker ! i)[j := 0]] ! i ! j = 0"
    using assms by simp
  moreover have "i \<in> set [0..<4]" "j \<in> set [0..<4]" using assms by simp_all
  ultimately show ?thesis unfolding can_move_def by blast
qed

subsection \<open>The invariant\<close>

lemma tile_ok_iff: "tile_ok c \<longleftrightarrow> c = 0 \<or> (\<exists>k\<ge>1. c = 2 ^ k)"
proof -
  have "k \<le> nat (2 ^ k :: int)" for k :: nat
  proof -
    have "k < 2 ^ k" by (rule less_exp)
    then show ?thesis by (simp add: nat_power_eq)
  qed
  then show ?thesis unfolding tile_ok_def by auto
qed

lemma tile_ok_0: "tile_ok 0"
  by (simp add: tile_ok_iff)

lemma tile_ok_double: "tile_ok a \<Longrightarrow> tile_ok (a * 2)"
proof -
  assume "tile_ok a"
  then consider "a = 0" | k where "1 \<le> k" "a = 2 ^ k" by (auto simp: tile_ok_iff)
  then show ?thesis
  proof cases
    case 1
    then show ?thesis by (simp add: tile_ok_iff)
  next
    case 2
    then have "a * 2 = 2 ^ Suc k" "1 \<le> Suc k" by simp_all
    then show ?thesis unfolding tile_ok_iff by blast
  qed
qed

lemma tile_ok_nonneg: "tile_ok c \<Longrightarrow> 0 \<le> c"
  by (auto simp: tile_ok_iff)

lemma tile_ok_2_4: "tile_ok 2" "tile_ok 4"
proof -
  have "(2::int) = 2 ^ 1" "(4::int) = 2 ^ 2" by simp_all
  then show "tile_ok 2" "tile_ok 4" unfolding tile_ok_iff by (blast intro: le_refl one_le_numeral)+
qed

lemma merged_pred:
  assumes "\<And>a. P a \<Longrightarrow> P (a * 2)" and "\<forall>c \<in> set xs. P c"
  shows "\<forall>c \<in> set (merged xs). P c"
  using assms(2) by (induction xs rule: merged.induct) (auto simp: assms(1))

lemma slide_pred:
  assumes "P 0" and "\<And>a. P a \<Longrightarrow> P (a * 2)" and "\<forall>c \<in> set r. P c"
  shows "\<forall>c \<in> set (slide r). P c"
proof -
  have "\<forall>c \<in> set (remove_zeros r). P c" using assms(3) by (simp add: remove_zeros_def)
  then have "\<forall>c \<in> set (merged (remove_zeros r)). P c"
    using merged_pred [of P "remove_zeros r"] assms(2) by blast
  with assms(1) show ?thesis by (auto simp: slide_def Let_def)
qed

lemma map_slide_pred:
  assumes "P 0" and "\<And>a. P a \<Longrightarrow> P (a * 2)" and "\<forall>c \<in> set (concat g). P c"
  shows "\<forall>c \<in> set (concat (map slide g)). P c"
proof
  fix c assume "c \<in> set (concat (map slide g))"
  then obtain r where r: "r \<in> set g" and c: "c \<in> set (slide r)" by auto
  from r assms(3) have "\<forall>c \<in> set r. P c" by auto
  with assms(1,2) have "\<forall>c \<in> set (slide r). P c" by (rule slide_pred [of P r])
  with c show "P c" by blast
qed

lemma cells_ok_slide: "cells_ok g \<Longrightarrow> cells_ok (map slide g)"
  unfolding cells_ok_def by (rule map_slide_pred [OF tile_ok_0 tile_ok_double])

lemma cells_nonneg_slide: "cells_nonneg g \<Longrightarrow> cells_nonneg (map slide g)"
  unfolding cells_nonneg_def by (rule map_slide_pred) simp_all

lemma cells_ok_slide3: "cells_ok g \<Longrightarrow> cells_ok (map slide3 g)"
  using cells_ok_slide [of "map slide (map slide g)"] cells_ok_slide [of "map slide g"]
    cells_ok_slide [of g] by (simp only: map_slide3)

lemma cells_ok_nonneg: "cells_ok g \<Longrightarrow> cells_nonneg g"
  by (simp add: cells_ok_def cells_nonneg_def tile_ok_nonneg)

lemma cells_rot90_1: "is_grid4 g \<Longrightarrow> set (concat (rot90 g 1)) = set (concat g)"
  by (erule grid4_cells) (simp only: rot90_1_cells, auto)

lemma cells_rot90_3: "is_grid4 g \<Longrightarrow> set (concat (rot90 g 3)) = set (concat g)"
  by (erule grid4_cells) (simp only: rot90_3_cells, auto)

lemma cells_fliplr: "set (concat (fliplr g)) = set (concat g)"
  by (auto simp: fliplr_def)

lemma cells_orient: "is_grid4 g \<Longrightarrow> set (concat (orient dir g)) = set (concat g)"
  by (cases dir) (simp_all only: orient.simps cells_rot90_1 cells_rot90_3 cells_fliplr)

lemma cells_restore: "is_grid4 g \<Longrightarrow> set (concat (restore dir g)) = set (concat g)"
  by (cases dir) (simp_all only: restore.simps cells_rot90_1 cells_rot90_3 cells_fliplr)

lemma occupied_le: "is_grid4 g \<Longrightarrow> occupied g \<le> 16"
proof (erule grid4_cells)
  fix a0 a1 a2 a3 b0 b1 b2 b3 c0 c1 c2 c3 d0 d1 d2 d3 :: int
  assume g: "g = [[a0, a1, a2, a3], [b0, b1, b2, b3], [c0, c1, c2, c3], [d0, d1, d2, d3]]"
  have "occupied g \<le> length (concat g)" unfolding occupied_def by (rule length_filter_le)
  also have "length (concat g) = 16" unfolding g by simp
  finally show ?thesis .
qed

lemma grid_inv_iff: "grid_inv g \<longleftrightarrow> is_grid4 g \<and> cells_ok g"
  using occupied_le [of g] by (auto simp: grid_inv_def)

lemma cells_update:
  "set (concat (g[i := (g ! i)[j := v]])) \<subseteq> insert v (set (concat g))"
proof (cases "i < length g")
  case True
  show ?thesis
  proof
    fix c assume "c \<in> set (concat (g[i := (g ! i)[j := v]]))"
    then obtain r where r: "r \<in> set (g[i := (g ! i)[j := v]])" and c: "c \<in> set r" by auto
    from r have "r = (g ! i)[j := v] \<or> r \<in> set g"
      using set_update_subset_insert [of g i "(g ! i)[j := v]"] by auto
    then show "c \<in> insert v (set (concat g))"
    proof
      assume "r = (g ! i)[j := v]"
      with c have "c = v \<or> c \<in> set (g ! i)"
        using set_update_subset_insert [of "g ! i" j v] by auto
      moreover have "g ! i \<in> set g" using True by simp
      ultimately show ?thesis by auto
    next
      assume "r \<in> set g"
      with c show ?thesis by auto
    qed
  qed
next
  case False
  then show ?thesis by (auto simp: list_update_beyond)
qed

lemma is_grid4_add: "is_grid4 g \<Longrightarrow> is_grid4 (add_random_tile d g)"
proof -
  assume g: "is_grid4 g"
  have "is_grid4 (g[i := (g ! i)[j := v]])" for i j v
  proof (cases "i < length g")
    case True
    with g have "length ((g ! i)[j := v]) = 4" by (simp add: is_grid4_def)
    with g show ?thesis by (rule is_grid4_update)
  next
    case False
    with g show ?thesis by (simp add: list_update_beyond)
  qed
  with g show ?thesis by (simp add: add_random_tile_def split_beta)
qed

lemma cells_ok_add:
  assumes "cells_ok g" and "tile d = 2 \<or> tile d = 4"
  shows "cells_ok (add_random_tile d g)"
proof -
  have t: "tile_ok (tile d)" using assms(2) tile_ok_2_4 by auto
  have "cells_ok (g[i := (g ! i)[j := tile d]])" for i j
    using cells_update [of g i j "tile d"] assms(1) t unfolding cells_ok_def by blast
  with assms(1) show ?thesis by (simp add: add_random_tile_def split_beta)
qed

lemma grid_inv_add: "grid_inv g \<Longrightarrow> draw_ok d g \<Longrightarrow> grid_inv (add_random_tile d g)"
  by (simp add: grid_inv_iff is_grid4_add cells_ok_add draw_ok_def)

lemma grid_inv_zero: "grid_inv zero_grid"
proof -
  have z: "zero_grid = [[0, 0, 0, 0], [0, 0, 0, 0], [0, 0, 0, 0], [0, 0, 0, 0]]"
    by (simp add: zero_grid_def numeral_eq_Suc)
  show ?thesis unfolding z by (simp add: grid_inv_iff is_grid4_def cells_ok_def tile_ok_0)
qed

lemma grid_inv_init:
  assumes "draw_ok d1 zero_grid" and "draw_ok d2 (add_random_tile d1 zero_grid)"
  shows "grid_inv (game_grid (init d1 d2))"
proof -
  have "grid_inv (add_random_tile d1 zero_grid)"
    using grid_inv_zero assms(1) by (rule grid_inv_add)
  then have "grid_inv (add_random_tile d2 (add_random_tile d1 zero_grid))"
    using assms(2) by (rule grid_inv_add)
  then show ?thesis by (simp add: init_def zero_grid_def)
qed

lemma grid_inv_move: "grid_inv g \<Longrightarrow> grid_inv (fst (move g sc))"
  by (simp add: grid_inv_iff move_conv is_grid4_length is_grid4_map_slide cells_ok_slide)

lemma cells_ok_cong: "set (concat g) = set (concat h) \<Longrightarrow> cells_ok g = cells_ok h"
  by (simp add: cells_ok_def)

lemma grid_inv_orient: "grid_inv g \<Longrightarrow> grid_inv (orient dir g)"
  using cells_ok_cong [OF cells_orient [of g dir]] by (simp add: grid_inv_iff is_grid4_orient)

lemma grid_inv_restore: "grid_inv g \<Longrightarrow> grid_inv (restore dir g)"
  using cells_ok_cong [OF cells_restore [of g dir]] by (simp add: grid_inv_iff is_grid4_restore)

lemma grid_inv_slide3: "grid_inv g \<Longrightarrow> grid_inv (map slide3 g)"
  by (simp add: grid_inv_iff is_grid4_map_slide3 cells_ok_slide3)

lemma grid_inv_shift:
  assumes "grid_inv (game_grid st)"
  shows "grid_inv (game_grid (fst (shift dir st)))"
proof -
  from assms have g4: "is_grid4 (game_grid st)" by (simp add: grid_inv_iff)
  have "grid_inv (restore dir (map slide3 (orient dir (game_grid st))))"
    using assms by (intro grid_inv_restore grid_inv_slide3 grid_inv_orient)
  then show ?thesis by (simp add: shift_conv [OF g4])
qed

lemma game_grid_after_move:
  "game_grid (after_move d st) = add_random_tile d (game_grid st)"
  by (simp add: after_move_def game_over_def Let_def)

lemma score_after_move: "score (after_move d st) = score st"
  by (simp add: after_move_def game_over_def Let_def)

lemma game_grid_handler:
  "game_grid (handler dir d st) =
     (if snd (shift dir st) then add_random_tile d (game_grid (fst (shift dir st)))
      else game_grid (fst (shift dir st)))"
  by (simp add: handler_finish finish_def split_beta game_grid_after_move)

lemma score_handler: "score (handler dir d st) = score (fst (shift dir st))"
  by (simp add: handler_finish finish_def split_beta score_after_move)

lemma grid_inv_handler:
  assumes "grid_inv (game_grid st)" and "draw_ok d (game_grid (fst (shift dir st)))"
  shows "grid_inv (game_grid (handler dir d st))"
  using grid_inv_shift [OF assms(1), of dir] assms(2)
  by (simp add: game_grid_handler grid_inv_add)

lemma reachable_inv: "reachable st \<Longrightarrow> grid_inv (game_grid st)"
  by (induction rule: reachable.induct) (simp_all add: grid_inv_init grid_inv_handler)

lemma merged_tiles_nonneg: "\<forall>c \<in> set xs. 0 \<le> c \<Longrightarrow> \<forall>v \<in> set (merged_tiles xs). 0 \<le> v"
  by (induction xs rule: merged_tiles.induct) auto

lemma gain_nonneg: "\<forall>c \<in> set xs. 0 \<le> c \<Longrightarrow> 0 \<le> gain xs"
  unfolding gain_def using merged_tiles_nonneg [of xs] by (simp add: sum_list_nonneg)

lemma sum_list_concat_map:
  "sum_list (concat (map f xs)) = (\<Sum>x\<leftarrow>xs. sum_list (f x :: int list))"
  by (induction xs) simp_all

lemma pass_gain_tiles: "pass_gain g = sum_list (pass_tiles g)"
  by (simp add: pass_gain_def pass_tiles_def gain_def sum_list_concat_map)

lemma pass_gain_nonneg:
  assumes "cells_nonneg g"
  shows "0 \<le> pass_gain g"
proof -
  have "0 \<le> gain (remove_zeros r)" if "r \<in> set g" for r
  proof (rule gain_nonneg)
    from that assms show "\<forall>c \<in> set (remove_zeros r). 0 \<le> c"
      by (auto simp: cells_nonneg_def remove_zeros_def)
  qed
  then show ?thesis unfolding pass_gain_def by (intro sum_list_nonneg) auto
qed

lemma gain3_nonneg: "cells_nonneg g \<Longrightarrow> 0 \<le> gain3 g"
  using pass_gain_nonneg [of g] pass_gain_nonneg [of "map slide g"]
    pass_gain_nonneg [of "map slide (map slide g)"]
    cells_nonneg_slide [of g] cells_nonneg_slide [of "map slide g"]
  unfolding gain3_def by linarith

lemma score_shift:
  "is_grid4 (game_grid st) \<Longrightarrow>
   score (fst (shift dir st)) = score st + gain3 (orient dir (game_grid st))"
  by (simp add: shift_conv)

lemma score_shift_mono:
  assumes "grid_inv (game_grid st)"
  shows "score st \<le> score (fst (shift dir st))"
proof -
  from assms have g4: "is_grid4 (game_grid st)" by (simp add: grid_inv_iff)
  have "cells_nonneg (orient dir (game_grid st))"
    using grid_inv_orient [OF assms, of dir] by (simp add: grid_inv_iff cells_ok_nonneg)
  then have "0 \<le> gain3 (orient dir (game_grid st))" by (rule gain3_nonneg)
  then show ?thesis by (simp add: score_shift [OF g4])
qed

lemma reachable_score: "reachable st \<Longrightarrow> 0 \<le> score st"
proof (induction rule: reachable.induct)
  case (start d1 d2)
  show ?case by (simp add: init_def)
next
  case (key st d dir)
  from key.hyps(1) have "grid_inv (game_grid st)" by (rule reachable_inv)
  from score_shift_mono [OF this, of dir] key.IH show ?case
    by (simp add: score_handler)
qed

lemma gain3_moves:
  assumes "length g = 4"
  shows "gain3 g = sum_list (pass_tiles g @ pass_tiles (fst (move g a))
      @ pass_tiles (fst (move (fst (move g a)) b)))"
  using assms by (simp add: gain3_def pass_gain_tiles move_conv)

subsection \<open>The row of four twos\<close>

lemma gain3_rows:
  "gain3 g = (\<Sum>r\<leftarrow>g. gain (remove_zeros r) + gain (remove_zeros (slide r))
      + gain (remove_zeros (slide (slide r))))"
  by (simp add: gain3_def pass_gain_def sum_list_addf comp_def)

lemma sum_list_map_update:
  fixes f :: "'a \<Rightarrow> int"
  shows "i < length xs \<Longrightarrow>
    sum_list (map f (xs[i := y])) = sum_list (map f xs) - f (xs ! i) + f y"
proof (induction xs arbitrary: i)
  case Nil
  then show ?case by simp
next
  case (Cons x xs)
  then show ?case by (cases i) simp_all
qed

lemma slide3_2222: "slide3 [2, 2, 2, 2] = [8, 0, 0, 0]"
  by code_simp

lemma row_gain_2222:
  "gain (remove_zeros [2, 2, 2, 2]) + gain (remove_zeros (slide [2, 2, 2, 2]))
     + gain (remove_zeros (slide (slide [2, 2, 2, 2]))) = 16"
  by code_simp

lemma row_gain_0000:
  "gain (remove_zeros [0, 0, 0, 0]) + gain (remove_zeros (slide [0, 0, 0, 0]))
     + gain (remove_zeros (slide (slide [0, 0, 0, 0]))) = 0"
  by code_simp

lemma shift_left_2222:
  assumes g4: "is_grid4 (game_grid st)" and i: "i < 4" and row: "game_grid st ! i = [2, 2, 2, 2]"
  shows "game_grid (fst (shift_left st)) ! i = [8, 0, 0, 0]"
    and "score (fst (shift_left st)) =
      score (fst (shift_left (st\<lparr>game_grid := (game_grid st)[i := [0, 0, 0, 0]]\<rparr>))) + 16"
    and "snd (shift_left st)"
proof -
  let ?g = "game_grid st"
  from g4 i have len: "i < length ?g" by (simp add: is_grid4_def)
  have r: "map slide3 ?g ! i = [8, 0, 0, 0]" using len row by (simp add: slide3_2222)
  then show "game_grid (fst (shift_left st)) ! i = [8, 0, 0, 0]"
    by (simp add: shift_left_conv [OF g4])
  have "map slide3 ?g \<noteq> ?g" using r row by auto
  then show "snd (shift_left st)" by (simp add: shift_left_conv [OF g4])
  have g4': "is_grid4 (game_grid (st\<lparr>game_grid := ?g[i := [0, 0, 0, 0]]\<rparr>))"
    using g4 by (simp add: is_grid4_update)
  have "gain3 (?g[i := [0, 0, 0, 0]]) = gain3 ?g - 16"
    unfolding gain3_rows sum_list_map_update [OF len] row row_gain_2222 row_gain_0000 by simp
  then show "score (fst (shift_left st)) =
      score (fst (shift_left (st\<lparr>game_grid := ?g[i := [0, 0, 0, 0]]\<rparr>))) + 16"
    by (simp add: shift_left_conv [OF g4] shift_left_conv [OF g4'])
qed

subsection \<open>The range of the cells and of the score\<close>

lemma cell_sum_rot90_1: "is_grid4 g \<Longrightarrow> cell_sum f (rot90 g 1) = cell_sum f g"
  by (erule grid4_cells) (simp only: rot90_1_cells cell_sum_def, simp)

lemma cell_sum_rot90_3: "is_grid4 g \<Longrightarrow> cell_sum f (rot90 g 3) = cell_sum f g"
  by (erule grid4_cells) (simp only: rot90_3_cells cell_sum_def, simp)

lemma cell_sum_fliplr: "cell_sum f (fliplr g) = cell_sum f g"
proof -
  have "sum_list (map f (concat (map rev g))) = sum_list (map f (concat g))"
    by (induction g) (simp_all add: rev_map [symmetric])
  then show ?thesis by (simp add: cell_sum_def fliplr_def)
qed

lemma cell_sum_orient: "is_grid4 g \<Longrightarrow> cell_sum f (orient dir g) = cell_sum f g"
  by (cases dir) (simp_all only: orient.simps cell_sum_rot90_1 cell_sum_rot90_3 cell_sum_fliplr)

lemma cell_sum_restore: "is_grid4 g \<Longrightarrow> cell_sum f (restore dir g) = cell_sum f g"
  by (cases dir) (simp_all only: restore.simps cell_sum_rot90_1 cell_sum_rot90_3 cell_sum_fliplr)

lemma at_least_sum: "int (at_least t xs) = sum_list (map (\<lambda>c. if t \<le> c then 1 else 0) xs)"
  by (induction xs) (simp_all add: at_least_def)

lemma at_least_cell_sum: "int (at_least t (concat g)) = cell_sum (\<lambda>c. if t \<le> c then 1 else 0) g"
  by (simp add: at_least_sum cell_sum_def)

lemma at_least_orient:
  "is_grid4 g \<Longrightarrow> at_least t (concat (orient dir g)) = at_least t (concat g)"
  using at_least_cell_sum [of t "orient dir g"] at_least_cell_sum [of t g]
  by (simp add: cell_sum_orient)

lemma at_least_restore:
  "is_grid4 g \<Longrightarrow> at_least t (concat (restore dir g)) = at_least t (concat g)"
  using at_least_cell_sum [of t "restore dir g"] at_least_cell_sum [of t g]
  by (simp add: cell_sum_restore)

lemma at_least_append [simp]: "at_least t (xs @ ys) = at_least t xs + at_least t ys"
  by (simp add: at_least_def)

lemma at_least_Cons: "at_least t (x # xs) = (if t \<le> x then 1 else 0) + at_least t xs"
  by (simp add: at_least_def)

lemma at_least_Nil [simp]: "at_least t [] = 0"
  by (simp add: at_least_def)

lemma merged_at_least:
  "0 \<le> t \<Longrightarrow> 2 * at_least (2 * t) (merged xs) \<le> at_least (2 * t) xs + at_least t xs"
  by (induction xs rule: merged.induct) (auto simp: at_least_Cons)

lemma at_least_remove_zeros: "0 < t \<Longrightarrow> at_least t (remove_zeros r) = at_least t r"
  by (induction r) (auto simp: remove_zeros_def at_least_Cons)

lemma at_least_zeros: "0 < t \<Longrightarrow> at_least t (replicate n 0) = 0"
  by (simp add: at_least_def)

lemma slide_at_least:
  assumes "0 < t"
  shows "2 * at_least (2 * t) (slide r) \<le> at_least (2 * t) r + at_least t r"
proof -
  have "at_least (2 * t) (slide r) = at_least (2 * t) (merged (remove_zeros r))"
    using assms by (simp add: slide_def Let_def at_least_zeros)
  with merged_at_least [of t "remove_zeros r"] assms show ?thesis
    by (simp add: at_least_remove_zeros)
qed

lemma map_slide_at_least:
  assumes "0 < t"
  shows "2 * at_least (2 * t) (concat (map slide g))
    \<le> at_least (2 * t) (concat g) + at_least t (concat g)"
proof (induction g)
  case Nil
  show ?case by simp
next
  case (Cons r g)
  with slide_at_least [OF assms, of r] show ?case by simp
qed

lemma at_least_le_length: "at_least t xs \<le> length xs"
  by (simp add: at_least_def)

lemma length_cells: "is_grid4 g \<Longrightarrow> length (concat g) = 16"
  by (erule grid4_cells) simp

lemma cap_slide:
  assumes "is_grid4 g" and "cap g"
  shows "cap (map slide g)"
  unfolding cap_def
proof
  fix e :: nat
  assume e: "e \<in> {0..18}"
  show "at_least (2 ^ e) (concat (map slide g)) + e \<le> 18"
  proof (cases e)
    case 0
    have "at_least (2 ^ e) (concat (map slide g)) \<le> length (concat (map slide g))"
      by (rule at_least_le_length)
    also have "\<dots> = 16" using assms(1) by (intro length_cells is_grid4_map_slide)
    finally show ?thesis using 0 by simp
  next
    case (Suc n)
    have "2 * at_least (2 * 2 ^ n) (concat (map slide g))
        \<le> at_least (2 * 2 ^ n) (concat g) + at_least (2 ^ n) (concat g)"
      by (rule map_slide_at_least) simp
    moreover have "Suc n \<in> {0..18}" "n \<in> {0..18}" using e Suc by simp_all
    then have "at_least (2 ^ Suc n) (concat g) + Suc n \<le> 18"
      "at_least (2 ^ n) (concat g) + n \<le> 18"
      using assms(2) unfolding cap_def by blast+
    ultimately show ?thesis using Suc by simp
  qed
qed

lemma cap_slide3: "is_grid4 g \<Longrightarrow> cap g \<Longrightarrow> cap (map slide3 g)"
  using cap_slide [of "map slide (map slide g)"] cap_slide [of "map slide g"] cap_slide [of g]
    is_grid4_map_slide [of g] is_grid4_map_slide [of "map slide g"]
  by (simp only: map_slide3)

lemma cap_orient: "is_grid4 g \<Longrightarrow> cap g \<Longrightarrow> cap (orient dir g)"
  by (simp add: cap_def at_least_orient)

lemma cap_restore: "is_grid4 g \<Longrightarrow> cap g \<Longrightarrow> cap (restore dir g)"
  by (simp add: cap_def at_least_restore)

lemma cap_shift:
  assumes "is_grid4 (game_grid st)" and "cap (game_grid st)"
  shows "cap (game_grid (fst (shift dir st)))"
proof -
  let ?o = "orient dir (game_grid st)"
  have o4: "is_grid4 ?o" using assms(1) by (rule is_grid4_orient)
  have "cap ?o" using assms by (rule cap_orient)
  with o4 have "cap (map slide3 ?o)" by (rule cap_slide3)
  moreover have "is_grid4 (map slide3 ?o)" using o4 by (rule is_grid4_map_slide3)
  ultimately have "cap (restore dir (map slide3 ?o))" by (rule cap_restore [rotated])
  then show ?thesis by (simp add: shift_conv [OF assms(1)])
qed

lemma at_least_update: "v < t \<Longrightarrow> at_least t (xs[j := v]) \<le> at_least t xs"
proof (induction xs arbitrary: j)
  case Nil
  show ?case by simp
next
  case (Cons x xs)
  then show ?case by (cases j) (auto simp: at_least_Cons)
qed

lemma at_least_update2:
  "v < t \<Longrightarrow> at_least t (concat (g[i := (g ! i)[j := v]])) \<le> at_least t (concat g)"
proof (induction g arbitrary: i)
  case Nil
  show ?case by simp
next
  case (Cons r g)
  show ?case
  proof (cases i)
    case 0
    with at_least_update [OF Cons.prems, of r j] show ?thesis by simp
  next
    case (Suc n)
    with Cons.IH [OF Cons.prems, of n] show ?thesis by simp
  qed
qed

lemma cap_update:
  assumes "is_grid4 g" and "cap g" and "v \<le> 4"
  shows "cap (g[i := (g ! i)[j := v]])"
  unfolding cap_def
proof
  fix e :: nat
  assume e: "e \<in> {0..18}"
  let ?g' = "g[i := (g ! i)[j := v]]"
  show "at_least (2 ^ e) (concat ?g') + e \<le> 18"
  proof (cases "e \<le> 2")
    case True
    have "is_grid4 ?g'"
    proof (cases "i < length g")
      case True
      with assms(1) have "length ((g ! i)[j := v]) = 4" by (simp add: is_grid4_def)
      with assms(1) show ?thesis by (rule is_grid4_update)
    next
      case False
      with assms(1) show ?thesis by (simp add: list_update_beyond)
    qed
    then have "length (concat ?g') = 16" by (rule length_cells)
    with at_least_le_length [of "2 ^ e" "concat ?g'"] True show ?thesis by simp
  next
    case False
    then have "3 \<le> e" by simp
    then have "(2::int) ^ 3 \<le> 2 ^ e" by (intro power_increasing) simp_all
    with assms(3) have "v < 2 ^ e" by simp
    then have "at_least (2 ^ e) (concat ?g') \<le> at_least (2 ^ e) (concat g)"
      by (rule at_least_update2)
    moreover have "at_least (2 ^ e) (concat g) + e \<le> 18"
      using assms(2) e unfolding cap_def by blast
    ultimately show ?thesis by simp
  qed
qed

lemma cap_add:
  assumes "is_grid4 g" and "cap g" and "tile d = 2 \<or> tile d = 4"
  shows "cap (add_random_tile d g)"
proof -
  from assms(3) have "tile d \<le> 4" by auto
  with assms(1,2) have "cap (g[i := (g ! i)[j := tile d]])" for i j by (rule cap_update)
  with assms(2) show ?thesis by (simp add: add_random_tile_def split_beta)
qed

lemma cap_zero: "cap zero_grid"
proof -
  have z: "zero_grid = [[0, 0, 0, 0], [0, 0, 0, 0], [0, 0, 0, 0], [0, 0, 0, 0]]"
    by (simp add: zero_grid_def numeral_eq_Suc)
  have "at_least (2 ^ e) (concat zero_grid) = 0" for e :: nat
    unfolding z by (simp add: at_least_def)
  then show ?thesis by (simp add: cap_def)
qed

lemma is_grid4_zero: "is_grid4 zero_grid"
  using grid_inv_zero by (simp add: grid_inv_iff)

lemma cap_mono_aux: "at_least t xs = 0 \<Longrightarrow> \<forall>c \<in> set xs. c < t"
  by (induction xs) (auto simp: at_least_Cons split: if_splits)

lemma cap_bound:
  assumes "cap g"
  shows "\<forall>c \<in> set (concat g). c < 2 ^ 18"
proof -
  have "(18::nat) \<in> {0..18}" by simp
  with assms have "at_least (2 ^ 18) (concat g) + 18 \<le> 18" unfolding cap_def by blast
  then have "at_least (2 ^ 18) (concat g) = 0" by simp
  then show ?thesis by (rule cap_mono_aux)
qed

lemma reachable_cap: "reachable st \<Longrightarrow> cap (game_grid st)"
proof (induction rule: reachable.induct)
  case (start d1 d2)
  have t1: "tile d1 = 2 \<or> tile d1 = 4" and t2: "tile d2 = 2 \<or> tile d2 = 4"
    using start by (simp_all add: draw_ok_def)
  have c1: "cap (add_random_tile d1 zero_grid)"
    using is_grid4_zero cap_zero t1 by (rule cap_add)
  have g1: "is_grid4 (add_random_tile d1 zero_grid)"
    using is_grid4_zero by (rule is_grid4_add)
  from g1 c1 t2 have "cap (add_random_tile d2 (add_random_tile d1 zero_grid))"
    by (rule cap_add)
  then show ?case by (simp add: init_def zero_grid_def)
next
  case (key st d dir)
  from key.hyps(1) have inv: "grid_inv (game_grid st)" by (rule reachable_inv)
  then have g4: "is_grid4 (game_grid st)" by (simp add: grid_inv_iff)
  have c: "cap (game_grid (fst (shift dir st)))" using g4 key.IH by (rule cap_shift)
  have s4: "is_grid4 (game_grid (fst (shift dir st)))"
    using grid_inv_shift [OF inv, of dir] by (simp add: grid_inv_iff)
  have "tile d = 2 \<or> tile d = 4" using key.hyps(3) by (simp add: draw_ok_def)
  with s4 c have "cap (add_random_tile d (game_grid (fst (shift dir st))))" by (rule cap_add)
  with c show ?case by (simp add: game_grid_handler)
qed

lemma self_le_sq: "(a::int) \<le> a * a"
proof (cases "a \<le> 0")
  case True
  have "0 \<le> a * a" by simp
  with True show ?thesis by linarith
next
  case False
  then have "a * 1 \<le> a * a" by (intro mult_left_mono) simp_all
  then show ?thesis by simp
qed

lemma merged_sq: "sum_list (map sq xs) + gain xs \<le> sum_list (map sq (merged xs))"
proof (induction xs rule: merged.induct)
  case (1 a b rest)
  show ?case
  proof (cases "a = b")
    case True
    have "sq (a * 2) = sq a + sq a + 2 * (a * a)" by (simp add: sq_def)
    with self_le_sq [of a] have "sq a + sq a + a * 2 \<le> sq (a * 2)" by simp
    with "1.IH"(1) [OF True] True show ?thesis by simp
  next
    case False
    with "1.IH"(2) [OF False] show ?thesis by simp
  qed
qed simp_all

lemma sq_remove_zeros: "sum_list (map sq (remove_zeros r)) = sum_list (map sq r)"
  by (induction r) (simp_all add: remove_zeros_def sq_def)

lemma sq_zeros: "sum_list (map sq (replicate n 0)) = 0"
  by (induction n) (simp_all add: sq_def)

lemma slide_sq: "sum_list (map sq r) + gain (remove_zeros r) \<le> sum_list (map sq (slide r))"
proof -
  have "sum_list (map sq (slide r)) = sum_list (map sq (merged (remove_zeros r)))"
    using sq_zeros by (simp add: slide_def Let_def del: map_replicate)
  with merged_sq [of "remove_zeros r"] show ?thesis by (simp add: sq_remove_zeros)
qed

lemma map_slide_sq: "cell_sum sq g + pass_gain g \<le> cell_sum sq (map slide g)"
proof (induction g)
  case Nil
  show ?case by (simp add: cell_sum_def pass_gain_def)
next
  case (Cons r g)
  with slide_sq [of r] show ?case by (simp add: cell_sum_def pass_gain_def)
qed

lemma slide3_sq: "cell_sum sq g + gain3 g \<le> cell_sum sq (map slide3 g)"
  using map_slide_sq [of g] map_slide_sq [of "map slide g"]
    map_slide_sq [of "map slide (map slide g)"]
  unfolding gain3_def by (simp only: map_slide3)

lemma shift_sq:
  assumes "is_grid4 (game_grid st)" and "score st \<le> cell_sum sq (game_grid st)"
  shows "score (fst (shift dir st)) \<le> cell_sum sq (game_grid (fst (shift dir st)))"
proof -
  let ?o = "orient dir (game_grid st)"
  have o4: "is_grid4 ?o" using assms(1) by (rule is_grid4_orient)
  have "cell_sum sq (restore dir (map slide3 ?o)) = cell_sum sq (map slide3 ?o)"
    using o4 by (intro cell_sum_restore is_grid4_map_slide3)
  moreover have "cell_sum sq ?o = cell_sum sq (game_grid st)"
    using assms(1) by (rule cell_sum_orient)
  ultimately show ?thesis
    using slide3_sq [of ?o] assms(2) by (simp add: shift_conv [OF assms(1)])
qed

lemma sum_update_zero:
  fixes f :: "int \<Rightarrow> int"
  shows "j < length xs \<Longrightarrow> xs ! j = 0 \<Longrightarrow>
    sum_list (map f (xs[j := v])) = sum_list (map f xs) - f 0 + f v"
proof (induction xs arbitrary: j)
  case Nil
  then show ?case by simp
next
  case (Cons x xs)
  then show ?case by (cases j) simp_all
qed

lemma cell_sum_update_zero:
  "i < length g \<Longrightarrow> j < length (g ! i) \<Longrightarrow> g ! i ! j = 0 \<Longrightarrow>
   cell_sum f (g[i := (g ! i)[j := v]]) = cell_sum f g - f 0 + f v"
proof (induction g arbitrary: i)
  case Nil
  then show ?case by simp
next
  case (Cons r g)
  show ?case
  proof (cases i)
    case 0
    with Cons.prems show ?thesis by (simp add: cell_sum_def sum_update_zero)
  next
    case (Suc n)
    with Cons.prems Cons.IH [of n] show ?thesis by (simp add: cell_sum_def)
  qed
qed

lemma add_sq:
  assumes "is_grid4 g" and "draw_ok d g"
  shows "cell_sum sq g \<le> cell_sum sq (add_random_tile d g)"
proof (cases "empty_cells g = []")
  case True
  then show ?thesis by (simp add: add_random_tile_full)
next
  case False
  with assms(2) have "pick d < length (empty_cells g)" by (simp add: draw_ok_def)
  with False obtain i j where ij: "i < 4" "j < 4" "g ! i ! j = 0"
    and upd: "add_random_tile d g = g[i := (g ! i)[j := tile d]]"
    by (rule add_random_tile_cell)
  from assms(1) ij have "i < length g" "j < length (g ! i)" by (simp_all add: is_grid4_def)
  then have "cell_sum sq (add_random_tile d g) = cell_sum sq g - sq 0 + sq (tile d)"
    unfolding upd using ij(3) by (rule cell_sum_update_zero)
  then show ?thesis by (simp add: sq_def)
qed

lemma game_grid_init:
  "game_grid (init d1 d2) = add_random_tile d2 (add_random_tile d1 zero_grid)"
  by (simp add: init_def zero_grid_def)

lemma score_init: "score (init d1 d2) = 0"
  by (simp add: init_def)

lemma reachable_score_sq: "reachable st \<Longrightarrow> score st \<le> cell_sum sq (game_grid st)"
proof (induction rule: reachable.induct)
  case (start d1 d2)
  have z: "cell_sum sq zero_grid = 0"
    by (simp add: zero_grid_def cell_sum_def numeral_eq_Suc sq_def)
  have a: "cell_sum sq zero_grid \<le> cell_sum sq (add_random_tile d1 zero_grid)"
    using is_grid4_zero start(1) by (rule add_sq)
  have b: "cell_sum sq (add_random_tile d1 zero_grid)
      \<le> cell_sum sq (add_random_tile d2 (add_random_tile d1 zero_grid))"
    using is_grid4_add [OF is_grid4_zero] start(2) by (rule add_sq)
  from z a b show ?case unfolding game_grid_init score_init by linarith
next
  case (key st d dir)
  from key.hyps(1) have inv: "grid_inv (game_grid st)" by (rule reachable_inv)
  then have g4: "is_grid4 (game_grid st)" by (simp add: grid_inv_iff)
  have s: "score (fst (shift dir st)) \<le> cell_sum sq (game_grid (fst (shift dir st)))"
    using g4 key.IH by (rule shift_sq)
  have s4: "is_grid4 (game_grid (fst (shift dir st)))"
    using grid_inv_shift [OF inv, of dir] by (simp add: grid_inv_iff)
  from add_sq [OF s4 key.hyps(3)] s show ?case
    by (simp add: game_grid_handler score_handler)
qed

lemma sum_list_bounded:
  fixes f :: "int \<Rightarrow> int"
  shows "\<forall>x \<in> set xs. f x \<le> b \<Longrightarrow> sum_list (map f xs) \<le> int (length xs) * b"
  by (induction xs) (simp_all add: algebra_simps)

lemma sq_bound: "0 \<le> c \<Longrightarrow> c < 2 ^ 18 \<Longrightarrow> sq c \<le> 2 ^ 36"
proof -
  assume "0 \<le> c" "c < 2 ^ 18"
  then have "c * c \<le> 2 ^ 18 * 2 ^ 18" by (intro mult_mono) simp_all
  then show ?thesis by (simp add: sq_def)
qed

lemma cell_sum_sq_bound:
  assumes "is_grid4 g" and "cap g" and "cells_nonneg g"
  shows "cell_sum sq g \<le> 2 ^ 40"
proof -
  have "\<forall>c \<in> set (concat g). sq c \<le> 2 ^ 36"
  proof
    fix c assume c: "c \<in> set (concat g)"
    with cap_bound [OF assms(2)] have "c < 2 ^ 18" by blast
    moreover from c assms(3) have "0 \<le> c" unfolding cells_nonneg_def by blast
    ultimately show "sq c \<le> 2 ^ 36" by (rule sq_bound [rotated])
  qed
  then have "cell_sum sq g \<le> int (length (concat g)) * 2 ^ 36"
    unfolding cell_sum_def by (rule sum_list_bounded)
  with length_cells [OF assms(1)] show ?thesis by simp
qed

lemma reachable_bounds_aux:
  assumes "reachable st"
  shows "\<forall>c \<in> set (concat (game_grid st)). 0 \<le> c \<and> c < 2 ^ 18"
    and "0 \<le> score st" and "score st \<le> 2 ^ 40"
proof -
  from assms have inv: "grid_inv (game_grid st)" by (rule reachable_inv)
  then have g4: "is_grid4 (game_grid st)" and nn: "cells_nonneg (game_grid st)"
    by (simp_all add: grid_inv_iff cells_ok_nonneg)
  from assms have c: "cap (game_grid st)" by (rule reachable_cap)
  from cap_bound [OF c] nn show "\<forall>c \<in> set (concat (game_grid st)). 0 \<le> c \<and> c < 2 ^ 18"
    by (simp add: cells_nonneg_def)
  from assms show "0 \<le> score st" by (rule reachable_score)
  from reachable_score_sq [OF assms] cell_sum_sq_bound [OF g4 c nn]
  show "score st \<le> 2 ^ 40" by linarith
qed

lemma move_in_range:
  assumes "grid_inv g" and "cap g" and "0 \<le> sc" and "sc \<le> cell_sum sq g"
  shows "grid_inv (fst (move g sc))" and "cap (fst (move g sc))"
    and "sc \<le> snd (move g sc)" and "snd (move g sc) \<le> cell_sum sq (fst (move g sc))"
proof -
  from assms(1) have g4: "is_grid4 g" and nn: "cells_nonneg g"
    by (simp_all add: grid_inv_iff cells_ok_nonneg)
  then have len: "length g = 4" by (simp add: is_grid4_length)
  show "grid_inv (fst (move g sc))" using assms(1) by (rule grid_inv_move)
  show "cap (fst (move g sc))" using cap_slide [OF g4 assms(2)] by (simp add: move_conv len)
  show "sc \<le> snd (move g sc)" using pass_gain_nonneg [OF nn] by (simp add: move_conv len)
  show "snd (move g sc) \<le> cell_sum sq (fst (move g sc))"
    using map_slide_sq [of g] assms(4) by (simp add: move_conv len)
qed

lemma rev_rot90_1: "is_grid4 g \<Longrightarrow> rev (rot90 g 1) = transpose g"
  by (erule grid4_cells) (simp only: rot90_1_cells, simp)

lemma transpose_rot90_3: "is_grid4 g \<Longrightarrow> transpose (rot90 g 3) = rev g"
  by (erule grid4_cells) (simp only: rot90_3_cells, simp)

lemma rot90_3_columns: "is_grid4 g \<Longrightarrow> rot90 g 3 = map rev (transpose g)"
  by (erule grid4_cells) (simp only: rot90_3_cells, simp)

lemma transpose_rot90_1: "is_grid4 g \<Longrightarrow> map rev (transpose (rot90 g 1)) = g"
  by (erule grid4_cells) (simp only: rot90_1_cells, simp)

lemma shift_columns:
  assumes "is_grid4 (game_grid st)"
  shows "game_grid (fst (shift Left st)) = map slide3 (game_grid st)"
    and "map rev (game_grid (fst (shift Right st))) = map slide3 (map rev (game_grid st))"
    and "transpose (game_grid (fst (shift Up st))) = map slide3 (transpose (game_grid st))"
    and "map rev (transpose (game_grid (fst (shift Down st))))
      = map slide3 (map rev (transpose (game_grid st)))"
proof -
  let ?g = "game_grid st"
  show "game_grid (fst (shift Left st)) = map slide3 ?g"
    using shift_conv [OF assms, of Left] by simp
  have "map rev (fliplr (map slide3 (fliplr ?g))) = map slide3 (fliplr ?g)"
    using fliplr_fliplr [of "map slide3 (fliplr ?g)"] by (simp add: fliplr_def)
  then show "map rev (game_grid (fst (shift Right st))) = map slide3 (map rev ?g)"
    using shift_conv [OF assms, of Right] by (simp add: fliplr_def)
  have u4: "is_grid4 (map slide3 (rot90 ?g 1))"
    using assms by (intro is_grid4_map_slide3 is_grid4_rot90_1)
  have "transpose (rot90 (map slide3 (rot90 ?g 1)) 3) = rev (map slide3 (rot90 ?g 1))"
    using u4 by (rule transpose_rot90_3)
  also have "\<dots> = map slide3 (rev (rot90 ?g 1))" by (simp add: rev_map)
  also have "\<dots> = map slide3 (transpose ?g)" using assms by (simp only: rev_rot90_1)
  finally show "transpose (game_grid (fst (shift Up st))) = map slide3 (transpose ?g)"
    using shift_conv [OF assms, of Up] by simp
  have d4: "is_grid4 (map slide3 (rot90 ?g 3))"
    using assms by (intro is_grid4_map_slide3 is_grid4_rot90_3)
  have "map rev (transpose (rot90 (map slide3 (rot90 ?g 3)) 1)) = map slide3 (rot90 ?g 3)"
    using d4 by (rule transpose_rot90_1)
  also have "\<dots> = map slide3 (map rev (transpose ?g))"
    using assms by (simp only: rot90_3_columns)
  finally show "map rev (transpose (game_grid (fst (shift Down st))))
      = map slide3 (map rev (transpose ?g))"
    using shift_conv [OF assms, of Down] by simp
qed

lemma zero_grid_cell: "i < 4 \<Longrightarrow> j < 4 \<Longrightarrow> zero_grid ! i ! j = 0"
  by (simp add: zero_grid_def)

lemma occupied_zero: "occupied zero_grid = 0"
  by (simp add: zero_grid_def occupied_def numeral_eq_Suc)

lemma occupied_init:
  assumes "draw_ok d1 zero_grid" and "draw_ok d2 (add_random_tile d1 zero_grid)"
  shows "occupied (game_grid (init d1 d2)) = 2"
proof -
  let ?g1 = "add_random_tile d1 zero_grid"
  have e0: "\<exists>i<4. \<exists>j<4. zero_grid ! i ! j = 0"
  proof -
    have "(0::nat) < 4 \<and> (0::nat) < 4 \<and> zero_grid ! 0 ! 0 = 0"
      by (simp add: zero_grid_cell)
    then show ?thesis by blast
  qed
  from add_random_tile_spec [OF is_grid4_zero assms(1) e0]
  obtain i j where others: "\<forall>i' j'. (i', j') \<noteq> (i, j) \<longrightarrow> ?g1 ! i' ! j' = zero_grid ! i' ! j'"
    and occ1: "occupied ?g1 = occupied zero_grid + 1" and g4: "is_grid4 ?g1"
    by blast
  have e1: "\<exists>i<4. \<exists>j<4. ?g1 ! i ! j = 0"
  proof (cases "(i, j) = (0, 0)")
    case True
    then have "((0::nat), (1::nat)) \<noteq> (i, j)" by simp
    with others have "?g1 ! 0 ! 1 = zero_grid ! 0 ! 1" by blast
    then have "(0::nat) < 4 \<and> (1::nat) < 4 \<and> ?g1 ! 0 ! 1 = 0"
      by (simp add: zero_grid_cell)
    then show ?thesis by blast
  next
    case False
    then have "((0::nat), (0::nat)) \<noteq> (i, j)" by simp
    with others have "?g1 ! 0 ! 0 = zero_grid ! 0 ! 0" by blast
    then have "(0::nat) < 4 \<and> (0::nat) < 4 \<and> ?g1 ! 0 ! 0 = 0"
      by (simp add: zero_grid_cell)
    then show ?thesis by blast
  qed
  from add_random_tile_spec [OF g4 assms(2) e1]
  have "occupied (add_random_tile d2 ?g1) = occupied ?g1 + 1" by blast
  with occ1 show ?thesis by (simp add: game_grid_init occupied_zero)
qed

text \<open>
  In every state of a game the cells lie between 0 and \<open>2 ^ 18\<close> and the score between 0
  and \<open>2 ^ 40\<close>. With \<open>move_in_range\<close>, which keeps the bounds across each call of \<open>move\<close>
  inside a handler, the 64-bit integers of numpy never wrap, and the unbounded integers of
  this theory compute what the program computes.
\<close>

theorem values_in_range:
  assumes "reachable st"
  shows "(\<forall>c \<in> set (concat (game_grid st)). 0 \<le> c \<and> c < 2 ^ 18)
    \<and> 0 \<le> score st \<and> score st \<le> 2 ^ 40"
  using reachable_bounds_aux [OF assms] by blast

text \<open>
  \<open>shift_columns\<close> above reads the four directions on the grid itself: Left slides every
  row towards its first cell, Right towards its last cell, Up slides every column towards
  the first row and Down towards the last row.
\<close>

subsection \<open>The four directions and the compact-left primitive\<close>

text \<open>
  Every handler, up to its call of \<open>after_move\<close>, is three passes of \<open>compact_left\<close> over
  the rows of the transformed grid, and the turns and the flip move the cells as numpy
  documents.
\<close>

lemma compact_grid_slide: "compact_grid g = map slide g"
  by (simp add: compact_grid_def compact_left_conv)

lemma compact_gain_pass: "compact_gain g = pass_gain g"
  by (simp add: compact_gain_def compact_left_conv pass_gain_def)

lemma compact3_slide3: "compact3 g = map slide3 g"
  by (simp only: compact3_def compact_grid_slide map_slide3)

lemma compact_gain3_gain3: "compact_gain3 g = gain3 g"
  by (simp only: compact_gain3_def compact_gain_pass compact_grid_slide gain3_def)

lemma move_compact_grid: "length g = 4 \<Longrightarrow> move g sc = (compact_grid g, sc + compact_gain g)"
  by (simp add: move_conv compact_grid_slide compact_gain_pass)

lemma shift_compact:
  assumes "is_grid4 g"
  shows "shift dir \<lparr>game_grid = g, score = s, running = r\<rparr> =
    (\<lparr>game_grid = restore dir (compact3 (orient dir g)),
      score = s + compact_gain3 (orient dir g), running = r\<rparr>,
     compact3 (orient dir g) \<noteq> orient dir g)"
proof -
  have "is_grid4 (game_grid \<lparr>game_grid = g, score = s, running = r\<rparr>)"
    using assms by simp
  from shift_conv [OF this, of dir] show ?thesis
    by (simp add: compact3_slide3 compact_gain3_gain3)
qed

lemma lt4_cases: "i < 4 \<Longrightarrow> i = 0 \<or> i = 1 \<or> i = 2 \<or> i = (3::nat)"
  by arith

lemma rot90_1_nth:
  assumes "is_grid4 g" and "i < 4" and "j < 4"
  shows "rot90 g 1 ! i ! j = g ! j ! (3 - i)"
proof -
  from assms(1) obtain a0 a1 a2 a3 b0 b1 b2 b3 c0 c1 c2 c3 d0 d1 d2 d3 where
    g: "g = [[a0, a1, a2, a3], [b0, b1, b2, b3], [c0, c1, c2, c3], [d0, d1, d2, d3]]"
    by (rule grid4_cells)
  from lt4_cases [OF assms(2)] lt4_cases [OF assms(3)] show ?thesis
    unfolding g rot90_1_cells by (elim disjE) simp_all
qed

lemma rot90_3_nth:
  assumes "is_grid4 g" and "i < 4" and "j < 4"
  shows "rot90 g 3 ! i ! j = g ! (3 - j) ! i"
proof -
  from assms(1) obtain a0 a1 a2 a3 b0 b1 b2 b3 c0 c1 c2 c3 d0 d1 d2 d3 where
    g: "g = [[a0, a1, a2, a3], [b0, b1, b2, b3], [c0, c1, c2, c3], [d0, d1, d2, d3]]"
    by (rule grid4_cells)
  from lt4_cases [OF assms(2)] lt4_cases [OF assms(3)] show ?thesis
    unfolding g rot90_3_cells by (elim disjE) simp_all
qed

lemma fliplr_nth:
  assumes "is_grid4 g" and "i < 4" and "j < 4"
  shows "fliplr g ! i ! j = g ! i ! (3 - j)"
proof -
  from assms(1,2) have len: "i < length g" "length (g ! i) = 4" by (simp_all add: is_grid4_def)
  then have "fliplr g ! i ! j = rev (g ! i) ! j" by (simp add: fliplr_def)
  also have "\<dots> = g ! i ! (length (g ! i) - Suc j)"
    using assms(3) len by (intro rev_nth) simp
  finally show ?thesis using len by simp
qed

section \<open>The claims\<close>

subsection \<open>C1: a Left move on the row of four twos\<close>

text \<open>
  C1, as the code has it. A Left move on a grid whose row \<open>i\<close> holds \<open>[2, 2, 2, 2]\<close>
  leaves \<open>[8, 0, 0, 0]\<close> in that row and reports a change. The row adds 16 to the score:
  the first pass merges two pairs and adds 4 + 4, the second pass merges the two fours and
  adds 8. The score after the move is 16 above the score of the same move on the grid with
  row \<open>i\<close> emptied.
\<close>

theorem left_move_2222:
  assumes "is_grid4 (game_grid st)" and "i < 4" and "game_grid st ! i = [2, 2, 2, 2]"
  shows "game_grid (fst (shift_left st)) ! i = [8, 0, 0, 0]
    \<and> score (fst (shift_left st)) =
        score (fst (shift_left (st\<lparr>game_grid := (game_grid st)[i := [0, 0, 0, 0]]\<rparr>))) + 16
    \<and> snd (shift_left st)"
  using shift_left_2222 [OF assms] by simp

text \<open>The move on the grid with the four twos in row 1 and score 5.\<close>

theorem left_move_2222_witness:
  "is_grid4 [[0, 0, 0, 0], [2, 2, 2, 2], [0, 0, 0, 0], [0, 0, 0, 0]] \<and> (1::nat) < 4
   \<and> shift_left \<lparr>game_grid = [[0, 0, 0, 0], [2, 2, 2, 2], [0, 0, 0, 0], [0, 0, 0, 0]],
        score = 5, running = True\<rparr>
     = (\<lparr>game_grid = [[0, 0, 0, 0], [8, 0, 0, 0], [0, 0, 0, 0], [0, 0, 0, 0]],
         score = 21, running = True\<rparr>, True)
   \<and> score (fst (shift_left \<lparr>game_grid = [[0, 0, 0, 0], [0, 0, 0, 0], [0, 0, 0, 0], [0, 0, 0, 0]],
        score = 5, running = True\<rparr>)) = 5"
proof -
  let ?st = "\<lparr>game_grid = [[0, 0, 0, 0], [2, 2, 2, 2], [0, 0, 0, 0], [0, 0, 0, 0 :: int]],
        score = 5, running = True\<rparr>"
  have a: "is_grid4 (game_grid ?st)" by (simp add: is_grid4_def)
  have b: "(1::nat) < 4" by simp
  have c: "game_grid ?st ! 1 = [2, 2, 2, 2]" by simp
  have e: "shift_left ?st
     = (\<lparr>game_grid = [[0, 0, 0, 0], [8, 0, 0, 0], [0, 0, 0, 0], [0, 0, 0, 0]],
         score = 21, running = True\<rparr>, True)" by code_simp
  have f: "score (fst (shift_left \<lparr>game_grid = [[0, 0, 0, 0], [0, 0, 0, 0], [0, 0, 0, 0], [0, 0, 0, 0]],
        score = 5, running = True\<rparr>)) = 5" by code_simp
  from left_move_2222 [OF a b c] a e f show ?thesis by simp
qed

text \<open>
  The score of the Left move on the grid with the four twos in row 0 and score 0 is 16,
  and not 12.
\<close>

theorem left_move_2222_score_counterexample:
  "score (fst (shift_left \<lparr>game_grid = [[2, 2, 2, 2], [0, 0, 0, 0], [0, 0, 0, 0], [0, 0, 0, 0]],
        score = 0, running = True\<rparr>)) = 16
   \<and> score (fst (shift_left \<lparr>game_grid = [[2, 2, 2, 2], [0, 0, 0, 0], [0, 0, 0, 0], [0, 0, 0, 0]],
        score = 0, running = True\<rparr>)) \<noteq> 0 + 12"
proof -
  have "score (fst (shift_left \<lparr>game_grid = [[2, 2, 2, 2], [0, 0, 0, 0], [0, 0, 0, 0], [0, 0, 0, 0]],
        score = 0, running = True\<rparr>)) = 16" by code_simp
  then show ?thesis by simp
qed

subsection \<open>C2: one pass of \<open>move\<close> is the compact-left primitive on every row\<close>

text \<open>
  C2. On a 4x4 grid, \<open>move\<close> returns the grid whose every row is \<open>compact_left\<close> of the
  same row of the argument, and the score plus the doubled values of all rows. On every
  row the loop over \<open>j\<close> computes \<open>merge_pairs\<close> of the row without its zeros: the cells
  with the zero in each right cell, and the score.
\<close>

theorem move_is_compact_left:
  assumes "is_grid4 g"
  shows "move g sc = (map (\<lambda>r. fst (compact_left r)) g, sc + (\<Sum>r\<leftarrow>g. snd (compact_left r)))
    \<and> (\<forall>r \<in> set g. \<forall>s. combine_tiles (remove_zeros r) s =
          (fst (merge_pairs (remove_zeros r)), s + snd (merge_pairs (remove_zeros r))))"
proof -
  from assms have "length g = 4" by (rule is_grid4_length)
  then have "move g sc = (map (\<lambda>r. fst (compact_left r)) g, sc + (\<Sum>r\<leftarrow>g. snd (compact_left r)))"
    by (rule move_compact_left)
  moreover have "combine_tiles (remove_zeros r) s =
      (fst (merge_pairs (remove_zeros r)), s + snd (merge_pairs (remove_zeros r)))" for r s
    by (simp add: combine_tiles_scan scan_merge_pairs)
  ultimately show ?thesis by blast
qed

theorem move_is_compact_left_witness:
  "is_grid4 [[2, 2, 2, 2], [0, 2, 0, 2], [4, 4, 2, 2], [2, 0, 0, 2]]
   \<and> move [[2, 2, 2, 2], [0, 2, 0, 2], [4, 4, 2, 2], [2, 0, 0, 2]] 0
       = ([[4, 4, 0, 0], [4, 0, 0, 0], [8, 4, 0, 0], [4, 0, 0, 0]], 28)
   \<and> compact_left [4, 4, 2, 2] = ([8, 4, 0, 0], 12)
   \<and> combine_tiles (remove_zeros [4, 4, 2, 2]) 0 = ([8, 0, 4, 0], 12)"
proof -
  let ?g = "[[2, 2, 2, 2], [0, 2, 0, 2], [4, 4, 2, 2], [2, 0, 0, 2 :: int]]"
  have a: "is_grid4 ?g" by (simp add: is_grid4_def)
  have b: "map (\<lambda>r. fst (compact_left r)) ?g
      = [[4, 4, 0, 0], [4, 0, 0, 0], [8, 4, 0, 0], [4, 0, 0, 0]]" by code_simp
  have c: "(\<Sum>r\<leftarrow>?g. snd (compact_left r)) = 28" by code_simp
  have d: "compact_left [4, 4, 2, 2] = ([8, 4, 0, 0], 12)" by code_simp
  have e: "merge_pairs (remove_zeros [4, 4, 2, 2]) = ([8, 0, 4, 0], 12)" by code_simp
  have f: "[4, 4, 2, 2] \<in> set ?g" by simp
  from move_is_compact_left [OF a, of 0] have
    "move ?g 0 = (map (\<lambda>r. fst (compact_left r)) ?g, 0 + (\<Sum>r\<leftarrow>?g. snd (compact_left r)))"
    and "\<forall>r \<in> set ?g. \<forall>s. combine_tiles (remove_zeros r) s =
          (fst (merge_pairs (remove_zeros r)), s + snd (merge_pairs (remove_zeros r)))"
    by blast+
  with f have "move ?g 0 = ([[4, 4, 0, 0], [4, 0, 0, 0], [8, 4, 0, 0], [4, 0, 0, 0]], 28)"
    and "combine_tiles (remove_zeros [4, 4, 2, 2]) 0 = ([8, 0, 4, 0], 12)"
    unfolding b c by (simp, metis e add_0 fst_conv snd_conv)
  with a d show ?thesis by blast
qed

subsection \<open>C3: the four directions reduce to the Left move\<close>

text \<open>
  C3. On a 4x4 grid \<open>g\<close> with score \<open>s\<close>, every handler before its call of \<open>after_move\<close>
  is the compact-left primitive of the specification, three times over every row of the
  transformed grid, then the inverse transform: nothing for Left; a quarter turn and three
  quarter turns back for Up; three quarter turns and one back for Down; the left-right flip
  before and after for Right. The score grows by what the three passes of \<open>compact_left\<close>
  add, the flag \<open>moved\<close> says whether they changed the transformed grid, and each call of
  \<open>move\<close> is one pass. The quarter turn sends cell \<open>(j, 3 - i)\<close> to \<open>(i, j)\<close>, three quarter
  turns send \<open>(3 - j, i)\<close> to \<open>(i, j)\<close>, the flip sends \<open>(i, 3 - j)\<close> to \<open>(i, j)\<close>, and each
  second transform undoes the first. So Up compacts every column towards the first row,
  Down every column towards the last row, Right every row towards its last cell. The Up,
  Down and Right handlers are the three passes of the Left handler on the transformed
  state, and all four end with the same call of \<open>after_move\<close> when the flag is set.
\<close>

theorem directions_reduce_to_left:
  assumes "is_grid4 g"
  shows "shift_left \<lparr>game_grid = g, score = s, running = r\<rparr> =
      (\<lparr>game_grid = compact3 g, score = s + compact_gain3 g, running = r\<rparr>,
       compact3 g \<noteq> g)
    \<and> shift_up \<lparr>game_grid = g, score = s, running = r\<rparr> =
      (\<lparr>game_grid = rot90 (compact3 (rot90 g 1)) 3,
        score = s + compact_gain3 (rot90 g 1), running = r\<rparr>,
       compact3 (rot90 g 1) \<noteq> rot90 g 1)
    \<and> shift_down \<lparr>game_grid = g, score = s, running = r\<rparr> =
      (\<lparr>game_grid = rot90 (compact3 (rot90 g 3)) 1,
        score = s + compact_gain3 (rot90 g 3), running = r\<rparr>,
       compact3 (rot90 g 3) \<noteq> rot90 g 3)
    \<and> shift_right \<lparr>game_grid = g, score = s, running = r\<rparr> =
      (\<lparr>game_grid = fliplr (compact3 (fliplr g)),
        score = s + compact_gain3 (fliplr g), running = r\<rparr>,
       compact3 (fliplr g) \<noteq> fliplr g)
    \<and> move (rot90 g 1) s = (compact_grid (rot90 g 1), s + compact_gain (rot90 g 1))
    \<and> move (rot90 g 3) s = (compact_grid (rot90 g 3), s + compact_gain (rot90 g 3))
    \<and> move (fliplr g) s = (compact_grid (fliplr g), s + compact_gain (fliplr g))
    \<and> move g s = (compact_grid g, s + compact_gain g)
    \<and> (\<forall>i<4. \<forall>j<4. rot90 g 1 ! i ! j = g ! j ! (3 - i)
          \<and> rot90 g 3 ! i ! j = g ! (3 - j) ! i
          \<and> fliplr g ! i ! j = g ! i ! (3 - j))
    \<and> rot90 (rot90 g 1) 3 = g \<and> rot90 (rot90 g 3) 1 = g \<and> fliplr (fliplr g) = g
    \<and> transpose (game_grid (fst (shift_up \<lparr>game_grid = g, score = s, running = r\<rparr>)))
        = compact3 (transpose g)
    \<and> map rev (transpose (game_grid (fst (shift_down \<lparr>game_grid = g, score = s, running = r\<rparr>))))
        = compact3 (map rev (transpose g))
    \<and> map rev (game_grid (fst (shift_right \<lparr>game_grid = g, score = s, running = r\<rparr>)))
        = compact3 (map rev g)
    \<and> shift_up \<lparr>game_grid = g, score = s, running = r\<rparr> =
      (let (st', moved) = shift_left \<lparr>game_grid = rot90 g 1, score = s, running = r\<rparr>
       in (st'\<lparr>game_grid := rot90 (game_grid st') 3\<rparr>, moved))
    \<and> shift_down \<lparr>game_grid = g, score = s, running = r\<rparr> =
      (let (st', moved) = shift_left \<lparr>game_grid = rot90 g 3, score = s, running = r\<rparr>
       in (st'\<lparr>game_grid := rot90 (game_grid st') 1\<rparr>, moved))
    \<and> shift_right \<lparr>game_grid = g, score = s, running = r\<rparr> =
      (let (st', moved) = shift_left \<lparr>game_grid = fliplr g, score = s, running = r\<rparr>
       in (st'\<lparr>game_grid := fliplr (game_grid st')\<rparr>, moved))
    \<and> move_up d \<lparr>game_grid = g, score = s, running = r\<rparr>
        = finish d (shift_up \<lparr>game_grid = g, score = s, running = r\<rparr>)
    \<and> move_down d \<lparr>game_grid = g, score = s, running = r\<rparr>
        = finish d (shift_down \<lparr>game_grid = g, score = s, running = r\<rparr>)
    \<and> move_right d \<lparr>game_grid = g, score = s, running = r\<rparr>
        = finish d (shift_right \<lparr>game_grid = g, score = s, running = r\<rparr>)
    \<and> move_left d \<lparr>game_grid = g, score = s, running = r\<rparr>
        = finish d (shift_left \<lparr>game_grid = g, score = s, running = r\<rparr>)"
proof -
  let ?st = "\<lparr>game_grid = g, score = s, running = r\<rparr>"
  have st4: "is_grid4 (game_grid ?st)" using assms by simp
  have L: "shift_left ?st =
      (\<lparr>game_grid = compact3 g, score = s + compact_gain3 g, running = r\<rparr>, compact3 g \<noteq> g)"
    using shift_compact [OF assms, of Left s r] by simp
  have U: "shift_up ?st =
      (\<lparr>game_grid = rot90 (compact3 (rot90 g 1)) 3,
        score = s + compact_gain3 (rot90 g 1), running = r\<rparr>,
       compact3 (rot90 g 1) \<noteq> rot90 g 1)"
    using shift_compact [OF assms, of Up s r] by simp
  have D: "shift_down ?st =
      (\<lparr>game_grid = rot90 (compact3 (rot90 g 3)) 1,
        score = s + compact_gain3 (rot90 g 3), running = r\<rparr>,
       compact3 (rot90 g 3) \<noteq> rot90 g 3)"
    using shift_compact [OF assms, of Down s r] by simp
  have R: "shift_right ?st =
      (\<lparr>game_grid = fliplr (compact3 (fliplr g)),
        score = s + compact_gain3 (fliplr g), running = r\<rparr>,
       compact3 (fliplr g) \<noteq> fliplr g)"
    using shift_compact [OF assms, of Right s r] by simp
  have M: "move (rot90 g 1) s = (compact_grid (rot90 g 1), s + compact_gain (rot90 g 1))"
    "move (rot90 g 3) s = (compact_grid (rot90 g 3), s + compact_gain (rot90 g 3))"
    "move (fliplr g) s = (compact_grid (fliplr g), s + compact_gain (fliplr g))"
    "move g s = (compact_grid g, s + compact_gain g)"
    using assms
    by (simp_all only: move_compact_grid is_grid4_length is_grid4_rot90_1 is_grid4_rot90_3
        is_grid4_fliplr)
  have N: "\<forall>i<4. \<forall>j<4. rot90 g 1 ! i ! j = g ! j ! (3 - i)
          \<and> rot90 g 3 ! i ! j = g ! (3 - j) ! i
          \<and> fliplr g ! i ! j = g ! i ! (3 - j)"
    using rot90_1_nth [OF assms] rot90_3_nth [OF assms] fliplr_nth [OF assms] by blast
  have I: "rot90 (rot90 g 1) 3 = g" "rot90 (rot90 g 3) 1 = g" "fliplr (fliplr g) = g"
    using rot90_3_1 [OF assms] rot90_1_3 [OF assms] fliplr_fliplr [of g] by blast+
  have C: "transpose (game_grid (fst (shift_up ?st))) = compact3 (transpose g)"
    "map rev (transpose (game_grid (fst (shift_down ?st)))) = compact3 (map rev (transpose g))"
    "map rev (game_grid (fst (shift_right ?st))) = compact3 (map rev g)"
    using shift_columns [OF st4] by (simp_all add: compact3_slide3)
  have V: "shift_up ?st =
      (let (st', moved) = shift_left \<lparr>game_grid = rot90 g 1, score = s, running = r\<rparr>
       in (st'\<lparr>game_grid := rot90 (game_grid st') 3\<rparr>, moved))"
    "shift_down ?st =
      (let (st', moved) = shift_left \<lparr>game_grid = rot90 g 3, score = s, running = r\<rparr>
       in (st'\<lparr>game_grid := rot90 (game_grid st') 1\<rparr>, moved))"
    "shift_right ?st =
      (let (st', moved) = shift_left \<lparr>game_grid = fliplr g, score = s, running = r\<rparr>
       in (st'\<lparr>game_grid := fliplr (game_grid st')\<rparr>, moved))"
    using shift_via_left [of Up ?st] shift_via_left [of Down ?st] shift_via_left [of Right ?st]
    by simp_all
  have H: "move_up d ?st = finish d (shift_up ?st)" "move_down d ?st = finish d (shift_down ?st)"
    "move_right d ?st = finish d (shift_right ?st)" "move_left d ?st = finish d (shift_left ?st)"
    by (simp_all only: move_up_def move_down_def move_right_def move_left_def)
  show ?thesis
    by (intro conjI L U D R M N I C V H)
qed

theorem directions_reduce_to_left_witness:
  "is_grid4 (game_grid demo)
   \<and> rot90 (game_grid demo) 1 = [[2, 2, 2, 2], [2, 0, 2, 0], [2, 2, 4, 0], [2, 0, 4, 2]]
   \<and> compact3 (rot90 (game_grid demo) 1)
       = [[8, 0, 0, 0], [4, 0, 0, 0], [8, 0, 0, 0], [2, 4, 2, 0]]
   \<and> compact_gain3 (rot90 (game_grid demo) 1) = 32
   \<and> shift_up \<lparr>game_grid = game_grid demo, score = 0, running = True\<rparr>
       = (\<lparr>game_grid = [[2, 8, 4, 8], [4, 0, 0, 0], [2, 0, 0, 0], [0, 0, 0, 0]],
           score = 32, running = True\<rparr>, True)
   \<and> shift_down \<lparr>game_grid = game_grid demo, score = 0, running = True\<rparr>
       = (\<lparr>game_grid = [[0, 0, 0, 0], [2, 0, 0, 0], [4, 0, 0, 0], [2, 8, 4, 8]],
           score = 32, running = True\<rparr>, True)
   \<and> shift_right \<lparr>game_grid = game_grid demo, score = 0, running = True\<rparr>
       = (\<lparr>game_grid = [[0, 0, 0, 8], [0, 0, 0, 4], [0, 0, 8, 4], [0, 0, 0, 4]],
           score = 36, running = True\<rparr>, True)
   \<and> transpose [[2, 8, 4, 8], [4, 0, 0, 0], [2, 0, 0, 0], [0, 0, 0, 0]]
       = compact3 (transpose (game_grid demo))"
proof -
  let ?g = "game_grid demo"
  have a: "is_grid4 ?g" by code_simp
  have b: "rot90 ?g 1 = [[2, 2, 2, 2], [2, 0, 2, 0], [2, 2, 4, 0], [2, 0, 4, 2]]"
    by code_simp
  have c: "compact3 (rot90 ?g 1) = [[8, 0, 0, 0], [4, 0, 0, 0], [8, 0, 0, 0], [2, 4, 2, 0]]"
    by code_simp
  have e: "compact_gain3 (rot90 ?g 1) = 32" by code_simp
  have u: "rot90 (compact3 (rot90 ?g 1)) 3 = [[2, 8, 4, 8], [4, 0, 0, 0], [2, 0, 0, 0], [0, 0, 0, 0]]"
    "compact3 (rot90 ?g 1) \<noteq> rot90 ?g 1" by code_simp+
  have dn: "rot90 (compact3 (rot90 ?g 3)) 1 = [[0, 0, 0, 0], [2, 0, 0, 0], [4, 0, 0, 0], [2, 8, 4, 8]]"
    "compact_gain3 (rot90 ?g 3) = 32" "compact3 (rot90 ?g 3) \<noteq> rot90 ?g 3" by code_simp+
  have rt: "fliplr (compact3 (fliplr ?g)) = [[0, 0, 0, 8], [0, 0, 0, 4], [0, 0, 8, 4], [0, 0, 0, 4]]"
    "compact_gain3 (fliplr ?g) = 36" "compact3 (fliplr ?g) \<noteq> fliplr ?g" by code_simp+
  note t = directions_reduce_to_left [OF a, of 0 True]
  from t have U: "shift_up \<lparr>game_grid = ?g, score = 0, running = True\<rparr> =
      (\<lparr>game_grid = rot90 (compact3 (rot90 ?g 1)) 3,
        score = 0 + compact_gain3 (rot90 ?g 1), running = True\<rparr>,
       compact3 (rot90 ?g 1) \<noteq> rot90 ?g 1)" by blast
  from t have D: "shift_down \<lparr>game_grid = ?g, score = 0, running = True\<rparr> =
      (\<lparr>game_grid = rot90 (compact3 (rot90 ?g 3)) 1,
        score = 0 + compact_gain3 (rot90 ?g 3), running = True\<rparr>,
       compact3 (rot90 ?g 3) \<noteq> rot90 ?g 3)" by blast
  from t have R: "shift_right \<lparr>game_grid = ?g, score = 0, running = True\<rparr> =
      (\<lparr>game_grid = fliplr (compact3 (fliplr ?g)),
        score = 0 + compact_gain3 (fliplr ?g), running = True\<rparr>,
       compact3 (fliplr ?g) \<noteq> fliplr ?g)" by blast
  from t have C: "transpose (game_grid (fst (shift_up \<lparr>game_grid = ?g, score = 0, running = True\<rparr>)))
        = compact3 (transpose ?g)" by blast
  have U': "shift_up \<lparr>game_grid = ?g, score = 0, running = True\<rparr>
       = (\<lparr>game_grid = [[2, 8, 4, 8], [4, 0, 0, 0], [2, 0, 0, 0], [0, 0, 0, 0]],
           score = 32, running = True\<rparr>, True)"
    unfolding U by (simp only: u e) simp
  have D': "shift_down \<lparr>game_grid = ?g, score = 0, running = True\<rparr>
       = (\<lparr>game_grid = [[0, 0, 0, 0], [2, 0, 0, 0], [4, 0, 0, 0], [2, 8, 4, 8]],
           score = 32, running = True\<rparr>, True)"
    unfolding D by (simp only: dn) simp
  have R': "shift_right \<lparr>game_grid = ?g, score = 0, running = True\<rparr>
       = (\<lparr>game_grid = [[0, 0, 0, 8], [0, 0, 0, 4], [0, 0, 8, 4], [0, 0, 0, 4]],
           score = 36, running = True\<rparr>, True)"
    unfolding R by (simp only: rt) simp
  have C': "transpose [[2, 8, 4, 8], [4, 0, 0, 0], [2, 0, 0, 0], [0, 0, 0, 0]]
       = compact3 (transpose ?g)"
    using C unfolding U' by simp
  from a b c e U' D' R' C' show ?thesis by (intro conjI)
qed

subsection \<open>C4: the flag \<open>moved\<close>\<close>

text \<open>
  C4. On a 4x4 grid and for every direction, the flag \<open>moved\<close> that the handler tests is
  set exactly when the grid after the three passes, turned or flipped back, differs from
  the grid before the handler ran.
\<close>

theorem moved_iff_grid_changed:
  assumes "is_grid4 (game_grid st)"
  shows "snd (shift dir st) \<longleftrightarrow> game_grid (fst (shift dir st)) \<noteq> game_grid st"
  using assms by (rule shift_moved_iff)

theorem moved_iff_grid_changed_witness:
  "is_grid4 (game_grid demo) \<and> snd (shift Up demo)
   \<and> game_grid (fst (shift Up demo)) = [[2, 8, 4, 8], [4, 0, 0, 0], [2, 0, 0, 0], [0, 0, 0, 0]]
   \<and> game_grid (fst (shift Up demo)) \<noteq> game_grid demo"
proof -
  have a: "is_grid4 (game_grid demo)" by code_simp
  have b: "snd (shift Up demo)" by code_simp
  have c: "game_grid (fst (shift Up demo))
      = [[2, 8, 4, 8], [4, 0, 0, 0], [2, 0, 0, 0], [0, 0, 0, 0]]" by code_simp
  from moved_iff_grid_changed [OF a, of Up] a b c show ?thesis by simp
qed

subsection \<open>C5: a second move in the same direction changes nothing\<close>

text \<open>
  C5. On a 4x4 grid and for every direction, running the handler's passes again on the
  state they left, with no tile spawned in between, returns that state (grid, score and
  \<open>running\<close>) with the flag \<open>moved\<close> unset; the whole handler then leaves the state as it
  is, whatever the draw.
\<close>

theorem second_move_changes_nothing:
  assumes "is_grid4 (game_grid st)"
  shows "shift dir (fst (shift dir st)) = (fst (shift dir st), False)
    \<and> handler dir d (fst (shift dir st)) = fst (shift dir st)"
  using shift_twice [OF assms, of dir] by (simp add: handler_finish finish_def)

theorem second_move_changes_nothing_witness:
  "is_grid4 (game_grid demo)
   \<and> shift Left demo
       = (\<lparr>game_grid = [[8, 0, 0, 0], [4, 0, 0, 0], [8, 4, 0, 0], [4, 0, 0, 0]],
           score = 36, running = True\<rparr>, True)
   \<and> shift Left \<lparr>game_grid = [[8, 0, 0, 0], [4, 0, 0, 0], [8, 4, 0, 0], [4, 0, 0, 0]],
           score = 36, running = True\<rparr>
       = (\<lparr>game_grid = [[8, 0, 0, 0], [4, 0, 0, 0], [8, 4, 0, 0], [4, 0, 0, 0]],
           score = 36, running = True\<rparr>, False)"
proof -
  have a: "is_grid4 (game_grid demo)" by code_simp
  have b: "shift Left demo
       = (\<lparr>game_grid = [[8, 0, 0, 0], [4, 0, 0, 0], [8, 4, 0, 0], [4, 0, 0, 0]],
           score = 36, running = True\<rparr>, True)" by code_simp
  from second_move_changes_nothing [OF a, of Left] a b show ?thesis by simp
qed

subsection \<open>C6: the end of the game\<close>

text \<open>
  C6. \<open>can_move\<close> is a function of the grid alone and returns a truth value, so it
  changes nothing. It returns False exactly when every cell is non-zero and no two
  neighbours in a row or in a column are equal. It returns False on the checkerboard of
  twos and fours, and True on the checkerboard with any one cell set to 0.
\<close>

theorem can_move_over:
  "(\<not> can_move g \<longleftrightarrow>
      (\<forall>i<4. \<forall>j<4. g ! i ! j \<noteq> 0)
      \<and> (\<forall>i<4. \<forall>j<3. g ! i ! j \<noteq> g ! i ! (j + 1))
      \<and> (\<forall>i<3. \<forall>j<4. g ! i ! j \<noteq> g ! (i + 1) ! j))
   \<and> \<not> can_move [[2, 4, 2, 4], [4, 2, 4, 2], [2, 4, 2, 4], [4, 2, 4, 2]]
   \<and> (\<forall>i<4. \<forall>j<4. can_move
        ([[2, 4, 2, 4], [4, 2, 4, 2], [2, 4, 2, 4], [4, 2, 4, 2]]
           [i := ([[2, 4, 2, 4], [4, 2, 4, 2], [2, 4, 2, 4], [4, 2, 4, 2]] ! i)[j := 0]]))"
  using can_move_iff [of g] checker_over checker_hole unfolding checker_def by blast

theorem can_move_over_witness:
  "\<not> can_move [[2, 4, 2, 4], [4, 2, 4, 2], [2, 4, 2, 4], [4, 2, 4, 2]]
   \<and> can_move [[2, 4, 2, 4], [4, 2, 0, 2], [2, 4, 2, 4], [4, 2, 4, 2]]
   \<and> can_move [[2, 4, 2, 4], [4, 2, 4, 2], [2, 4, 4, 4], [4, 2, 4, 2]]"
proof -
  have a: "(1::nat) < 4" "(2::nat) < 4" by simp_all
  have b: "[[2, 4, 2, 4], [4, 2, 4, 2], [2, 4, 2, 4], [4, 2, 4, 2 :: int]]
         [1 := ([[2, 4, 2, 4], [4, 2, 4, 2], [2, 4, 2, 4], [4, 2, 4, 2]] ! 1)[2 := 0]]
      = [[2, 4, 2, 4], [4, 2, 0, 2], [2, 4, 2, 4], [4, 2, 4, 2]]" by simp
  have c: "can_move [[2, 4, 2, 4], [4, 2, 4, 2], [2, 4, 4, 4], [4, 2, 4, 2]]" by code_simp
  from can_move_over [of "[]"] have
    "\<not> can_move [[2, 4, 2, 4], [4, 2, 4, 2], [2, 4, 2, 4], [4, 2, 4, 2]]"
    and "\<forall>i<4. \<forall>j<4. can_move
        ([[2, 4, 2, 4], [4, 2, 4, 2], [2, 4, 2, 4], [4, 2, 4, 2]]
           [i := ([[2, 4, 2, 4], [4, 2, 4, 2], [2, 4, 2, 4], [4, 2, 4, 2]] ! i)[j := 0]])"
    by blast+
  with a b c show ?thesis by metis
qed

subsection \<open>C7: the score\<close>

text \<open>
  C7. One call of \<open>move\<close> on a grid of four rows adds to the score the sum of the tiles
  that its merges create, and that sum is not negative when no cell is negative. The three
  calls of one handler add the tiles of the three passes. \<open>after_move\<close>, and with it the
  spawn, leaves the score as it is. In every state of a game the score is not negative and
  no handler lowers it.
\<close>

theorem score_monotone:
  "(length g = 4 \<longrightarrow> snd (move g sc) = sc + sum_list (pass_tiles g))
   \<and> (length g = 4 \<and> cells_nonneg g \<longrightarrow> sc \<le> snd (move g sc))
   \<and> (is_grid4 (game_grid st) \<longrightarrow>
        score (fst (shift dir st)) = score st
          + sum_list (pass_tiles (orient dir (game_grid st))
              @ pass_tiles (fst (move (orient dir (game_grid st)) 0))
              @ pass_tiles (fst (move (fst (move (orient dir (game_grid st)) 0)) 0))))
   \<and> score (handler dir d st) = score (fst (shift dir st))
   \<and> score (after_move d st) = score st
   \<and> (reachable st \<longrightarrow> 0 \<le> score st \<and> score st \<le> score (handler dir d st))"
proof -
  have 1: "length g = 4 \<longrightarrow> snd (move g sc) = sc + sum_list (pass_tiles g)"
    by (simp add: move_conv pass_gain_tiles)
  have 2: "length g = 4 \<and> cells_nonneg g \<longrightarrow> sc \<le> snd (move g sc)"
    using pass_gain_nonneg [of g] by (simp add: move_conv)
  have 3: "is_grid4 (game_grid st) \<longrightarrow>
        score (fst (shift dir st)) = score st
          + sum_list (pass_tiles (orient dir (game_grid st))
              @ pass_tiles (fst (move (orient dir (game_grid st)) 0))
              @ pass_tiles (fst (move (fst (move (orient dir (game_grid st)) 0)) 0)))"
  proof
    assume g4: "is_grid4 (game_grid st)"
    then have "length (orient dir (game_grid st)) = 4"
      by (intro is_grid4_length is_grid4_orient)
    from gain3_moves [OF this, of 0 0] score_shift [OF g4, of dir]
    show "score (fst (shift dir st)) = score st
          + sum_list (pass_tiles (orient dir (game_grid st))
              @ pass_tiles (fst (move (orient dir (game_grid st)) 0))
              @ pass_tiles (fst (move (fst (move (orient dir (game_grid st)) 0)) 0)))"
      by simp
  qed
  have 4: "reachable st \<longrightarrow> 0 \<le> score st \<and> score st \<le> score (handler dir d st)"
    using reachable_score [of st] score_shift_mono [OF reachable_inv, of st dir]
    by (simp add: score_handler)
  from 1 2 3 4 score_handler [of dir d st] score_after_move [of d st] show ?thesis
    by blast
qed

theorem score_monotone_witness:
  "length (game_grid demo) = 4 \<and> cells_nonneg (game_grid demo) \<and> is_grid4 (game_grid demo)
   \<and> pass_tiles (game_grid demo) = [4, 4, 4, 8, 4, 4]
   \<and> snd (move (game_grid demo) 3) = 31
   \<and> score (fst (shift Left demo)) = 36
   \<and> reachable (init \<lparr>pick = 0, tile = 2\<rparr> \<lparr>pick = 0, tile = 4\<rparr>)
   \<and> score (init \<lparr>pick = 0, tile = 2\<rparr> \<lparr>pick = 0, tile = 4\<rparr>) = 0
   \<and> score (handler Up \<lparr>pick = 0, tile = 2\<rparr> (init \<lparr>pick = 0, tile = 2\<rparr> \<lparr>pick = 0, tile = 4\<rparr>)) = 0"
proof -
  let ?d1 = "\<lparr>pick = 0, tile = 2\<rparr>" and ?d2 = "\<lparr>pick = 0, tile = 4\<rparr>"
  have a: "length (game_grid demo) = 4" "cells_nonneg (game_grid demo)"
    "is_grid4 (game_grid demo)" by code_simp+
  have b: "pass_tiles (game_grid demo) = [4, 4, 4, 8, 4, 4]" by code_simp
  have c: "draw_ok ?d1 zero_grid" "draw_ok ?d2 (add_random_tile ?d1 zero_grid)" by code_simp+
  then have r: "reachable (init ?d1 ?d2)" by (rule reachable.start)
  have e: "score (fst (shift Left demo)) = 36" by code_simp
  have f: "score (init ?d1 ?d2) = 0" by code_simp
  have h: "score (handler Up ?d1 (init ?d1 ?d2)) = 0" by code_simp
  from score_monotone [of "game_grid demo" 3 demo Left ?d1] a b
  have "snd (move (game_grid demo) 3) = 31" by simp
  with a b r e f h show ?thesis by blast
qed

subsection \<open>C8: spawning a tile\<close>

text \<open>
  C8. On a 4x4 grid and with draws that \<open>random.choice\<close> can return: when some cell is
  empty, \<open>add_random_tile\<close> writes 2 or 4 into one cell that held 0, a cell of the list of
  empty cells; every other cell keeps its value and the number of occupied cells grows by
  one. When no cell is empty, the grid stays as it is.
\<close>

theorem add_random_tile_spawns:
  assumes "is_grid4 g" and "draw_ok d g"
  shows "((\<exists>i<4. \<exists>j<4. g ! i ! j = 0) \<longrightarrow>
      (\<exists>i<4. \<exists>j<4. g ! i ! j = 0 \<and> (i, j) \<in> set (empty_cells g)
        \<and> (tile d = 2 \<or> tile d = 4)
        \<and> add_random_tile d g ! i ! j = tile d
        \<and> (\<forall>i' j'. (i', j') \<noteq> (i, j) \<longrightarrow> add_random_tile d g ! i' ! j' = g ! i' ! j')
        \<and> occupied (add_random_tile d g) = occupied g + 1
        \<and> is_grid4 (add_random_tile d g)))
    \<and> (\<not> (\<exists>i<4. \<exists>j<4. g ! i ! j = 0) \<longrightarrow> add_random_tile d g = g)"
proof (intro conjI impI)
  assume "\<exists>i<4. \<exists>j<4. g ! i ! j = 0"
  with assms show "\<exists>i<4. \<exists>j<4. g ! i ! j = 0 \<and> (i, j) \<in> set (empty_cells g)
        \<and> (tile d = 2 \<or> tile d = 4)
        \<and> add_random_tile d g ! i ! j = tile d
        \<and> (\<forall>i' j'. (i', j') \<noteq> (i, j) \<longrightarrow> add_random_tile d g ! i' ! j' = g ! i' ! j')
        \<and> occupied (add_random_tile d g) = occupied g + 1
        \<and> is_grid4 (add_random_tile d g)"
    by (rule add_random_tile_spec)
next
  assume "\<not> (\<exists>i<4. \<exists>j<4. g ! i ! j = 0)"
  then have "empty_cells g = []" by (simp add: empty_cells_Nil)
  then show "add_random_tile d g = g" by (rule add_random_tile_full)
qed

theorem add_random_tile_spawns_witness:
  "is_grid4 (game_grid demo) \<and> draw_ok \<lparr>pick = 2, tile = 4\<rparr> (game_grid demo)
   \<and> empty_cells (game_grid demo) = [(1, 0), (1, 2), (3, 1), (3, 2)]
   \<and> add_random_tile \<lparr>pick = 2, tile = 4\<rparr> (game_grid demo)
       = [[2, 2, 2, 2], [0, 2, 0, 2], [4, 4, 2, 2], [2, 4, 0, 2]]
   \<and> occupied (game_grid demo) = 12
   \<and> occupied (add_random_tile \<lparr>pick = 2, tile = 4\<rparr> (game_grid demo)) = 13
   \<and> is_grid4 checker \<and> draw_ok \<lparr>pick = 2, tile = 4\<rparr> checker
   \<and> add_random_tile \<lparr>pick = 2, tile = 4\<rparr> checker = checker"
proof -
  let ?d = "\<lparr>pick = 2, tile = 4\<rparr>"
  have a: "is_grid4 (game_grid demo)" "draw_ok ?d (game_grid demo)" by code_simp+
  have b: "empty_cells (game_grid demo) = [(1, 0), (1, 2), (3, 1), (3, 2)]" by code_simp
  have c: "add_random_tile ?d (game_grid demo)
       = [[2, 2, 2, 2], [0, 2, 0, 2], [4, 4, 2, 2], [2, 4, 0, 2]]" by code_simp
  have e: "occupied (game_grid demo) = 12" by code_simp
  have h: "\<exists>i<4. \<exists>j<4. game_grid demo ! i ! j = 0"
  proof -
    have "(1::nat) < 4 \<and> (0::nat) < 4 \<and> game_grid demo ! 1 ! 0 = 0" by code_simp
    then show ?thesis by blast
  qed
  have k: "is_grid4 checker" "draw_ok ?d checker" by code_simp+
  have full: "\<not> (\<exists>i<4. \<exists>j<4. checker ! i ! j = 0)"
  proof -
    have "empty_cells checker = []" by code_simp
    then show ?thesis by (simp add: empty_cells_Nil)
  qed
  from add_random_tile_spawns [OF a] h
  have "occupied (add_random_tile ?d (game_grid demo)) = occupied (game_grid demo) + 1"
    by blast
  with e have o: "occupied (add_random_tile ?d (game_grid demo)) = 13" by simp
  from add_random_tile_spawns [OF k] full
  have "add_random_tile ?d checker = checker" by blast
  with a b c e o k show ?thesis by blast
qed

subsection \<open>C9: the invariant of the grid\<close>

text \<open>
  C9. \<open>grid_inv\<close> says that the grid is 4x4, that every cell is 0 or a power of two
  \<open>2 ^ k\<close> with \<open>k \<ge> 1\<close>, and that at most 16 cells are occupied. It holds for the grid that
  \<open>__init__\<close> builds, which has two tiles; it is kept by a pass of \<open>move\<close>, by the three
  passes of every direction, by a spawn and by every handler, and so it holds in every
  state of a game.
\<close>

theorem grid_invariant:
  "(grid_inv g \<longleftrightarrow>
       is_grid4 g \<and> (\<forall>r \<in> set g. \<forall>c \<in> set r. c = 0 \<or> (\<exists>k\<ge>1. c = 2 ^ k))
       \<and> occupied g \<le> 16)
   \<and> (draw_ok d1 zero_grid \<and> draw_ok d2 (add_random_tile d1 zero_grid) \<longrightarrow>
        grid_inv (game_grid (init d1 d2)) \<and> occupied (game_grid (init d1 d2)) = 2)
   \<and> (grid_inv g \<longrightarrow> grid_inv (fst (move g sc)))
   \<and> (grid_inv (game_grid st) \<longrightarrow> grid_inv (game_grid (fst (shift dir st))))
   \<and> (grid_inv g \<and> draw_ok d g \<longrightarrow> grid_inv (add_random_tile d g))
   \<and> (grid_inv (game_grid st) \<and> draw_ok d (game_grid (fst (shift dir st))) \<longrightarrow>
        grid_inv (game_grid (handler dir d st)))
   \<and> (reachable st \<longrightarrow> grid_inv (game_grid st))"
proof -
  have 0: "grid_inv g \<longleftrightarrow>
       is_grid4 g \<and> (\<forall>r \<in> set g. \<forall>c \<in> set r. c = 0 \<or> (\<exists>k\<ge>1. c = 2 ^ k))
       \<and> occupied g \<le> 16"
    by (auto simp: grid_inv_def cells_ok_def tile_ok_iff)
  show ?thesis
    using grid_inv_init [of d1 d2] occupied_init [of d1 d2]
      grid_inv_move [of g sc] grid_inv_shift [of st dir]
      grid_inv_add [of g d] grid_inv_handler [of st d dir] reachable_inv [of st]
    by (simp only: 0 [symmetric]) blast
qed

theorem grid_invariant_witness:
  "draw_ok \<lparr>pick = 0, tile = 2\<rparr> zero_grid
   \<and> draw_ok \<lparr>pick = 0, tile = 4\<rparr> (add_random_tile \<lparr>pick = 0, tile = 2\<rparr> zero_grid)
   \<and> game_grid (init \<lparr>pick = 0, tile = 2\<rparr> \<lparr>pick = 0, tile = 4\<rparr>)
       = [[2, 4, 0, 0], [0, 0, 0, 0], [0, 0, 0, 0], [0, 0, 0, 0]]
   \<and> reachable (init \<lparr>pick = 0, tile = 2\<rparr> \<lparr>pick = 0, tile = 4\<rparr>)
   \<and> grid_inv (game_grid (init \<lparr>pick = 0, tile = 2\<rparr> \<lparr>pick = 0, tile = 4\<rparr>))
   \<and> occupied (game_grid (init \<lparr>pick = 0, tile = 2\<rparr> \<lparr>pick = 0, tile = 4\<rparr>)) = 2
   \<and> grid_inv (game_grid demo)
   \<and> draw_ok \<lparr>pick = 0, tile = 2\<rparr> (game_grid (fst (shift Down demo)))
   \<and> game_grid (handler Down \<lparr>pick = 0, tile = 2\<rparr> demo)
       = [[2, 0, 0, 0], [2, 0, 0, 0], [4, 0, 0, 0], [2, 8, 4, 8]]
   \<and> grid_inv (game_grid (handler Down \<lparr>pick = 0, tile = 2\<rparr> demo))"
proof -
  let ?d1 = "\<lparr>pick = 0, tile = 2\<rparr>" and ?d2 = "\<lparr>pick = 0, tile = 4\<rparr>"
  have c: "draw_ok ?d1 zero_grid" "draw_ok ?d2 (add_random_tile ?d1 zero_grid)" by code_simp+
  then have r: "reachable (init ?d1 ?d2)" by (rule reachable.start)
  have i: "game_grid (init ?d1 ?d2) = [[2, 4, 0, 0], [0, 0, 0, 0], [0, 0, 0, 0], [0, 0, 0, 0]]"
    by code_simp
  have g: "grid_inv (game_grid demo)" by code_simp
  have e: "draw_ok ?d1 (game_grid (fst (shift Down demo)))" by code_simp
  have h: "game_grid (handler Down ?d1 demo)
       = [[2, 0, 0, 0], [2, 0, 0, 0], [4, 0, 0, 0], [2, 8, 4, 8]]" by code_simp
  from grid_invariant [of "game_grid demo" ?d1 ?d2 0 demo Down ?d1] c g e
  have "grid_inv (game_grid (init ?d1 ?d2))"
    and "occupied (game_grid (init ?d1 ?d2)) = 2"
    and "grid_inv (game_grid (handler Down ?d1 demo))" by blast+
  with c r i g e h show ?thesis by blast
qed

subsection \<open>C10: a move that changes nothing\<close>

text \<open>
  C10. On a 4x4 grid and for every direction: when the flag \<open>moved\<close> is not set after the
  three passes, the state after them is the state before (the grid after turning or
  flipping back, the score and \<open>running\<close>), and the handler returns that state for every
  draw: \<open>after_move\<close> is not called and no tile is spawned.
\<close>

theorem unmoved_state_unchanged:
  assumes "is_grid4 (game_grid st)" and "\<not> snd (shift dir st)"
  shows "fst (shift dir st) = st \<and> handler dir d st = st"
  using shift_unmoved [OF assms] assms(2) by (simp add: handler_finish finish_def split_beta)

theorem unmoved_state_unchanged_witness:
  "is_grid4 (game_grid settled) \<and> \<not> snd (shift Up settled)
   \<and> shift Up settled = (settled, False)
   \<and> handler Up \<lparr>pick = 5, tile = 4\<rparr> settled = settled"
proof -
  have a: "is_grid4 (game_grid settled)" by code_simp
  have b: "\<not> snd (shift Up settled)" by code_simp
  from unmoved_state_unchanged [OF a b, of "\<lparr>pick = 5, tile = 4\<rparr>"] a b
  show ?thesis by (simp add: prod_eq_iff)
qed

end
